theory Spec2Isabelle
  imports Main
begin

section \<open>Python values and exceptions\<close>

text \<open>
  The module under study is \<^verbatim>\<open>datacube/utils/uris.py\<close>, read with the standard library of
  CPython 3.11 on a host whose filesystem encoding is UTF-8.  A Python \<^verbatim>\<open>str\<close> that
  enters the module is a \<^typ>\<open>string\<close>, one \<^typ>\<open>char\<close> per code point: the strings covered
  are those whose code points are at most U+00FF.  Text produced by percent-decoding can
  hold any code point and is a list of code points.  Integers are unbounded; conversions
  between integers and decimal text are refused beyond 4300 digits, the default of
  \<^verbatim>\<open>sys.int_max_str_digits\<close>.
\<close>

type_synonym ustr = "nat list"

definition U :: "string \<Rightarrow> ustr" where
  "U s = map of_char s"

text \<open>
  Exceptions are values.  The module raises \<^verbatim>\<open>ValueError\<close> in three places, told apart by
  their message; the spec calls them UnsupportedSchemeError, UnsupportedNetlocError and
  RelativeBaseError.  The other constructors are what the library calls can raise.
\<close>

datatype exn =
    TypeError
  | ValueError_only_file_URIs string
  | ValueError_netloc_only_on_Windows
  | ValueError_base_not_absolute
  | ValueError_relative_path_as_URI
  | ValueError_invalid_IPv6_URL
  | ValueError_invalid_bracketed_host
  | ValueError_int_max_str_digits
  | OSError
  | IndexError
  | RuntimeError
  | UnicodeEncodeError

text \<open>
  A \<^verbatim>\<open>PurePosixPath\<close> is its root (empty, \<^verbatim>\<open>/\<close> or \<^verbatim>\<open>//\<close>) and its names; two paths are
  equal in Python exactly when these are equal.  Python's \<^verbatim>\<open>_parts\<close> is the root, when there
  is one, followed by the names.
\<close>

datatype path = Path (root: ustr) (names: "ustr list")

text \<open>
  What \<^verbatim>\<open>pathlib.Path(s)\<close> is on the running host.  The Windows flavour is not taken
  further than the text it was built from.
\<close>

datatype native_path = PosixPath path | WindowsPath ustr

datatype pyobj = Str string | PathV path | NoneV | IntV int | BytesV "nat list"

text \<open>An argument that is text or a native path, as \<^verbatim>\<open>isinstance(p, (str, pathlib.Path))\<close> asks.\<close>

datatype str_or_path = AStr string | APath path

fun to_obj :: "str_or_path \<Rightarrow> pyobj" where
  "to_obj (AStr s) = Str s"
| "to_obj (APath p) = PathV p"

section \<open>Character classes\<close>

definition in_range :: "nat \<Rightarrow> nat \<Rightarrow> char \<Rightarrow> bool" where
  "in_range lo hi c = (lo \<le> of_char c \<and> (of_char c :: nat) \<le> hi)"

text \<open>\<^verbatim>\<open>str.isspace\<close> and \<^verbatim>\<open>str.isalnum\<close> of the Unicode database, below U+0100.\<close>

definition py_isspace :: "char \<Rightarrow> bool" where
  "py_isspace c = (in_range 0x09 0x0D c \<or> in_range 0x1C 0x20 c \<or> in_range 0x85 0x85 c
     \<or> in_range 0xA0 0xA0 c)"

definition py_isalnum :: "char \<Rightarrow> bool" where
  "py_isalnum c = list_ex (\<lambda>(lo, hi). in_range lo hi c)
     [(0x30, 0x39), (0x41, 0x5A), (0x61, 0x7A), (0xAA, 0xAA), (0xB2, 0xB3), (0xB5, 0xB5),
      (0xB9, 0xBA), (0xBC, 0xBE), (0xC0, 0xD6), (0xD8, 0xF6), (0xF8, 0xFF)]"

definition is_ascii :: "char \<Rightarrow> bool" where
  "is_ascii c = ((of_char c :: nat) < 0x80)"

definition ascii_alpha :: "char \<Rightarrow> bool" where
  "ascii_alpha c = (in_range 0x41 0x5A c \<or> in_range 0x61 0x7A c)"

definition ascii_digit :: "char \<Rightarrow> bool" where
  "ascii_digit c = in_range 0x30 0x39 c"

definition ascii_lower :: "char \<Rightarrow> char" where
  "ascii_lower c = (if in_range 0x41 0x5A c then char_of (of_char c + (32::nat)) else c)"

definition ascii_upper :: "char \<Rightarrow> char" where
  "ascii_upper c = (if in_range 0x61 0x7A c then char_of (of_char c - (32::nat)) else c)"

section \<open>Regular expressions as the \<^verbatim>\<open>re\<close> module matches them\<close>

datatype rx = Nul | Eps | Cls "char \<Rightarrow> bool" | Alt rx rx | Seq rx rx | Star rx

fun nullable :: "rx \<Rightarrow> bool" where
  "nullable Nul = False"
| "nullable Eps = True"
| "nullable (Cls p) = False"
| "nullable (Alt r s) = (nullable r \<or> nullable s)"
| "nullable (Seq r s) = (nullable r \<and> nullable s)"
| "nullable (Star r) = True"

fun deriv :: "char \<Rightarrow> rx \<Rightarrow> rx" where
  "deriv c Nul = Nul"
| "deriv c Eps = Nul"
| "deriv c (Cls p) = (if p c then Eps else Nul)"
| "deriv c (Alt r s) = Alt (deriv c r) (deriv c s)"
| "deriv c (Seq r s) =
     (if nullable r then Alt (Seq (deriv c r) s) (deriv c s) else Seq (deriv c r) s)"
| "deriv c (Star r) = Seq (deriv c r) (Star r)"

text \<open>\<^verbatim>\<open>pattern.match(s) is not None\<close>: some prefix of \<open>s\<close> is a word of the pattern.\<close>

fun re_match :: "rx \<Rightarrow> string \<Rightarrow> bool" where
  "re_match r [] = nullable r"
| "re_match r (c # cs) = (nullable r \<or> re_match (deriv c r) cs)"

text \<open>A pattern that ends in \<^verbatim>\<open>\Z\<close>: the whole of \<open>s\<close> is a word of the pattern.\<close>

fun re_fullmatch :: "rx \<Rightarrow> string \<Rightarrow> bool" where
  "re_fullmatch r [] = nullable r"
| "re_fullmatch r (c # cs) = re_fullmatch (deriv c r) cs"

definition Plus :: "rx \<Rightarrow> rx" where
  "Plus r = Seq r (Star r)"

fun Lit :: "string \<Rightarrow> rx" where
  "Lit [] = Eps"
| "Lit (c # cs) = Seq (Cls (\<lambda>x. x = c)) (Lit cs)"

text \<open>The words of a pattern, to state what a match is.\<close>

inductive_set star_words :: "string set \<Rightarrow> string set" for A :: "string set" where
  star_nil: "[] \<in> star_words A"
| star_app: "u \<in> A \<Longrightarrow> v \<in> star_words A \<Longrightarrow> u @ v \<in> star_words A"

fun lang :: "rx \<Rightarrow> string set" where
  "lang Nul = {}"
| "lang Eps = {[]}"
| "lang (Cls p) = {[c] | c. p c}"
| "lang (Alt r s) = lang r \<union> lang s"
| "lang (Seq r s) = {u @ v | u v. u \<in> lang r \<and> v \<in> lang s}"
| "lang (Star r) = star_words (lang r)"

text \<open>\<^verbatim>\<open>\s\<close>, \<^verbatim>\<open>\w\<close> and \<^verbatim>\<open>\d\<close> of a \<^verbatim>\<open>str\<close> pattern, which are the Unicode classes.\<close>

definition re_s :: "char \<Rightarrow> bool" where
  "re_s c = py_isspace c"

definition re_w :: "char \<Rightarrow> bool" where
  "re_w c = (py_isalnum c \<or> c = CHR ''_'')"

definition re_d :: "char \<Rightarrow> bool" where
  "re_d c = ascii_digit c"

text \<open>
  \<^verbatim>\<open>Pattern.match\<close> takes text only: with a \<^verbatim>\<open>str\<close> pattern, any other argument raises
  \<^verbatim>\<open>TypeError\<close>.
\<close>

definition Pattern_match :: "rx \<Rightarrow> pyobj \<Rightarrow> exn + bool" where
  "Pattern_match r v = (case v of Str s \<Rightarrow> Inr (re_match r s) | _ \<Rightarrow> Inl TypeError)"

section \<open>\<^verbatim>\<open>is_url\<close>\<close>

text \<open>\<^verbatim>\<open>URL_RE = re.compile(r'\A\s*[\w\d\+]+://')\<close>\<close>

definition URL_RE :: rx where
  "URL_RE = Seq (Star (Cls re_s))
              (Seq (Plus (Cls (\<lambda>c. re_w c \<or> re_d c \<or> c = CHR ''+''))) (Lit ''://''))"

definition is_url :: "pyobj \<Rightarrow> exn + bool" where
  "is_url url_str =
     (case Pattern_match URL_RE url_str of
        Inr m \<Rightarrow> Inr m
      | Inl TypeError \<Rightarrow> Inr False
      | Inl e \<Rightarrow> Inl e)"

text \<open>
  The pattern as the specification writes it, \<^verbatim>\<open>^\s*[A-Za-z0-9_+]+://\<close>, to be compared
  with \<^const>\<open>URL_RE\<close>.
\<close>

definition spec_scheme_char :: "char \<Rightarrow> bool" where
  "spec_scheme_char c = (ascii_alpha c \<or> ascii_digit c \<or> c = CHR ''_'' \<or> c = CHR ''+'')"

definition spec_URL_RE :: rx where
  "spec_URL_RE = Seq (Star (Cls re_s)) (Seq (Plus (Cls spec_scheme_char)) (Lit ''://''))"

text \<open>
  What it is for a text to match \<^verbatim>\<open>^S*P+://\<close>, for a class \<open>S\<close> of blanks and a class \<open>P\<close> of
  scheme characters: blanks, then a non-empty scheme, then \<^verbatim>\<open>://\<close>, then anything.
\<close>

definition matches_scheme_pattern :: "(char \<Rightarrow> bool) \<Rightarrow> (char \<Rightarrow> bool) \<Rightarrow> string \<Rightarrow> bool" where
  "matches_scheme_pattern S P s =
     (\<exists>ws sch rest. s = ws @ sch @ ''://'' @ rest \<and> (\<forall>c \<in> set ws. S c) \<and> sch \<noteq> []
        \<and> (\<forall>c \<in> set sch. P c))"

section \<open>The standard library: \<^verbatim>\<open>urllib.parse\<close>\<close>

subsection \<open>Text operations\<close>

text \<open>\<^verbatim>\<open>s.split(c, 1)\<close> when \<open>c\<close> occurs in \<open>s\<close>, and \<^verbatim>\<open>s.partition(c)\<close> without its middle.\<close>

definition split1 :: "'a \<Rightarrow> 'a list \<Rightarrow> 'a list \<times> 'a list" where
  "split1 c s = (takeWhile (\<lambda>x. x \<noteq> c) s, drop 1 (dropWhile (\<lambda>x. x \<noteq> c) s))"

text \<open>\<^verbatim>\<open>s.split(c)\<close> for a separator of one character.\<close>

fun split_on :: "'a \<Rightarrow> 'a list \<Rightarrow> 'a list list" where
  "split_on c [] = [[]]"
| "split_on c (x # xs) =
     (if x = c then [] # split_on c xs
      else (case split_on c xs of [] \<Rightarrow> [[x]] | w # ws \<Rightarrow> (x # w) # ws))"

text \<open>\<^verbatim>\<open>sep.join(parts)\<close> for a separator of one character.\<close>

fun join_with :: "'a \<Rightarrow> 'a list list \<Rightarrow> 'a list" where
  "join_with c [] = []"
| "join_with c [w] = w"
| "join_with c (w # ws) = w @ c # join_with c ws"

subsection \<open>\<^verbatim>\<open>urlsplit\<close> and \<^verbatim>\<open>urlparse\<close>\<close>

definition C0_control_or_space :: "char \<Rightarrow> bool" where
  "C0_control_or_space c = ((of_char c :: nat) \<le> 0x20)"

definition unsafe_url_byte :: "char \<Rightarrow> bool" where
  "unsafe_url_byte c = (c = CHR 0x09 \<or> c = CHR 0x0D \<or> c = CHR 0x0A)"

definition scheme_char :: "char \<Rightarrow> bool" where
  "scheme_char c = (ascii_alpha c \<or> ascii_digit c \<or> c = CHR ''+'' \<or> c = CHR ''-'' \<or> c = CHR ''.'')"

definition hexdig :: "char \<Rightarrow> bool" where
  "hexdig c = (ascii_digit c \<or> in_range 0x41 0x46 c \<or> in_range 0x61 0x66 c)"

text \<open>
  \<^verbatim>\<open>i = url.find(':')\<close>, and the scheme is cut off when \<^verbatim>\<open>i > 0\<close>, the first character is an
  ASCII letter and all of \<^verbatim>\<open>url[:i]\<close> is scheme characters.
\<close>

definition split_scheme :: "string \<Rightarrow> string \<times> string" where
  "split_scheme url =
     (let i = length (takeWhile (\<lambda>c. c \<noteq> CHR '':'') url) in
      if CHR '':'' \<in> set url \<and> 0 < i \<and> list_all ascii_alpha (take 1 url)
           \<and> list_all scheme_char (take i url)
      then (map ascii_lower (take i url), drop (i + 1) url)
      else ('''', url))"

text \<open>\<^verbatim>\<open>_splitnetloc(url, 2)\<close>: the authority runs to the first of \<^verbatim>\<open>/ ? #\<close>.\<close>

definition netloc_delim :: "char \<Rightarrow> bool" where
  "netloc_delim c = (c = CHR ''/'' \<or> c = CHR ''?'' \<or> c = CHR ''#'')"

definition splitnetloc :: "string \<Rightarrow> string \<times> string" where
  "splitnetloc url =
     (takeWhile (\<lambda>c. \<not> netloc_delim c) (drop 2 url),
      dropWhile (\<lambda>c. \<not> netloc_delim c) (drop 2 url))"

text \<open>
  \<^verbatim>\<open>_check_bracketed_host\<close>.  A host that starts with \<^verbatim>\<open>v\<close> must match
  \<^verbatim>\<open>\Av[a-fA-F0-9]+\..+\Z\<close>; any other must be an IPv6 address for the \<^verbatim>\<open>ipaddress\<close>
  module, whose answer is the parameter \<open>ipv6\<close>.
\<close>

definition IPvFuture_RE :: rx where
  "IPvFuture_RE = Seq (Lit ''v'') (Seq (Plus (Cls hexdig))
                    (Seq (Lit ''.'') (Plus (Cls (\<lambda>c. c \<noteq> CHR 0x0A)))))"

definition check_bracketed_host :: "(string \<Rightarrow> bool) \<Rightarrow> string \<Rightarrow> bool" where
  "check_bracketed_host ipv6 hostname =
     (if take 1 hostname = ''v'' then re_fullmatch IPvFuture_RE hostname else ipv6 hostname)"

text \<open>
  \<^verbatim>\<open>urlsplit(url)\<close>, giving scheme, netloc, path, query and fragment.  \<^verbatim>\<open>_checknetloc\<close> is
  left out: it rejects an authority whose NFKC form gains one of \<^verbatim>\<open>/ ? # @ :\<close>, which no
  code point up to U+00FF brings about.
\<close>

definition urlsplit ::
  "(string \<Rightarrow> bool) \<Rightarrow> string \<Rightarrow> exn + (string \<times> string \<times> string \<times> string \<times> string)" where
  "urlsplit ipv6 url0 =
     (let url1 = filter (\<lambda>c. \<not> unsafe_url_byte c) (dropWhile C0_control_or_space url0);
          (scheme, url2) = split_scheme url1;
          (netloc, url3) = (if take 2 url2 = ''//'' then splitnetloc url2 else ('''', url2));
          (url4, fragment) = (if CHR ''#'' \<in> set url3 then split1 CHR ''#'' url3 else (url3, ''''));
          (url5, query) = (if CHR ''?'' \<in> set url4 then split1 CHR ''?'' url4 else (url4, ''''))
      in if (CHR ''['' \<in> set netloc \<and> CHR '']'' \<notin> set netloc)
            \<or> (CHR '']'' \<in> set netloc \<and> CHR ''['' \<notin> set netloc)
         then Inl ValueError_invalid_IPv6_URL
         else if CHR ''['' \<in> set netloc \<and> CHR '']'' \<in> set netloc
              \<and> \<not> check_bracketed_host ipv6
                    (fst (split1 CHR '']'' (snd (split1 CHR ''['' netloc))))
         then Inl ValueError_invalid_bracketed_host
         else Inr (scheme, netloc, url5, query, fragment))"

record parse_result =
  scheme :: string
  netloc :: string
  path :: string
  params :: string
  query :: string
  fragment :: string

definition uses_params :: "string list" where
  "uses_params = ['''', ''ftp'', ''hdl'', ''prospero'', ''http'', ''imap'', ''https'', ''shttp'',
     ''rtsp'', ''rtsps'', ''rtspu'', ''sip'', ''sips'', ''mms'', ''sftp'', ''tel'']"

text \<open>\<^verbatim>\<open>_splitparams\<close>: the first \<^verbatim>\<open>;\<close> at or after the last \<^verbatim>\<open>/\<close>.\<close>

definition splitparams :: "string \<Rightarrow> string \<times> string" where
  "splitparams url =
     (let k = (if CHR ''/'' \<in> set url
               then length url - 1 - length (takeWhile (\<lambda>c. c \<noteq> CHR ''/'') (rev url))
               else 0)
      in if CHR '';'' \<in> set (drop k url)
         then (take k url @ fst (split1 CHR '';'' (drop k url)), snd (split1 CHR '';'' (drop k url)))
         else (url, ''''))"

definition urlparse :: "(string \<Rightarrow> bool) \<Rightarrow> string \<Rightarrow> exn + parse_result" where
  "urlparse ipv6 url =
     (case urlsplit ipv6 url of
        Inl e \<Rightarrow> Inl e
      | Inr (sch, nl, u, q, f) \<Rightarrow>
          (let (u', ps) = (if sch \<in> set uses_params \<and> CHR '';'' \<in> set u
                           then splitparams u else (u, ''''))
           in Inr \<lparr>scheme = sch, netloc = nl, path = u', params = ps, query = q, fragment = f\<rparr>))"

text \<open>
  A stand-in for the \<^verbatim>\<open>ipaddress\<close> module that accepts no host, for evaluating at locators
  whose authority has no bracketed host, where \<^const>\<open>urlsplit\<close> does not ask it.
\<close>

definition no_ipv6 :: "string \<Rightarrow> bool" where
  "no_ipv6 hostname = False"

subsection \<open>Percent-decoding\<close>

definition hexval :: "char \<Rightarrow> nat" where
  "hexval c = (if ascii_digit c then of_char c - 0x30
               else if in_range 0x41 0x46 c then of_char c - 0x37
               else of_char c - 0x57)"

text \<open>
  \<^verbatim>\<open>unquote_to_bytes\<close> on ASCII text: \<^verbatim>\<open>%\<close> followed by two hexadecimal digits is one byte,
  any other character is its own byte.
\<close>

fun unquote_to_bytes :: "string \<Rightarrow> nat list" where
  "unquote_to_bytes (c # h1 # h2 # cs) =
     (if c = CHR ''%'' \<and> hexdig h1 \<and> hexdig h2
      then (16 * hexval h1 + hexval h2) # unquote_to_bytes cs
      else of_char c # unquote_to_bytes (h1 # h2 # cs))"
| "unquote_to_bytes (c # cs) = of_char c # unquote_to_bytes cs"
| "unquote_to_bytes [] = []"

text \<open>
  \<^verbatim>\<open>bytes.decode('utf-8', 'replace')\<close>: every longest ill-formed stretch that could start a
  character becomes one U+FFFD.
\<close>

definition cont_byte :: "nat \<Rightarrow> bool" where
  "cont_byte b = (0x80 \<le> b \<and> b < 0xC0)"

text \<open>Whether \<open>b1\<close> can follow the lead byte \<open>b\<close> of a sequence of three or four bytes.\<close>

definition second_byte_ok :: "nat \<Rightarrow> nat \<Rightarrow> bool" where
  "second_byte_ok b b1 =
     (cont_byte b1 \<and> \<not> (b = 0xE0 \<and> b1 < 0xA0) \<and> \<not> (b = 0xED \<and> 0xA0 \<le> b1)
        \<and> \<not> (b = 0xF0 \<and> b1 < 0x90) \<and> \<not> (b = 0xF4 \<and> 0x90 \<le> b1))"

fun utf8_decode :: "nat list \<Rightarrow> ustr" where
  "utf8_decode [] = []"
| "utf8_decode (b # bs) =
     (if b < 0x80 then b # utf8_decode bs
      else if 0xC2 \<le> b \<and> b < 0xE0 then
        (case bs of
           [] \<Rightarrow> [0xFFFD]
         | b1 # r1 \<Rightarrow>
             if cont_byte b1 then ((b - 0xC0) * 64 + (b1 - 0x80)) # utf8_decode r1
             else 0xFFFD # utf8_decode (b1 # r1))
      else if 0xE0 \<le> b \<and> b < 0xF0 then
        (case bs of
           [] \<Rightarrow> [0xFFFD]
         | b1 # r1 \<Rightarrow>
             if \<not> second_byte_ok b b1 then 0xFFFD # utf8_decode (b1 # r1)
             else (case r1 of
                     [] \<Rightarrow> [0xFFFD]
                   | b2 # r2 \<Rightarrow>
                       if cont_byte b2
                       then ((b - 0xE0) * 4096 + (b1 - 0x80) * 64 + (b2 - 0x80)) # utf8_decode r2
                       else 0xFFFD # utf8_decode (b2 # r2)))
      else if 0xF0 \<le> b \<and> b < 0xF5 then
        (case bs of
           [] \<Rightarrow> [0xFFFD]
         | b1 # r1 \<Rightarrow>
             if \<not> second_byte_ok b b1 then 0xFFFD # utf8_decode (b1 # r1)
             else (case r1 of
                     [] \<Rightarrow> [0xFFFD]
                   | b2 # r2 \<Rightarrow>
                       if \<not> cont_byte b2 then 0xFFFD # utf8_decode (b2 # r2)
                       else (case r2 of
                               [] \<Rightarrow> [0xFFFD]
                             | b3 # r3 \<Rightarrow>
                                 if cont_byte b3
                                 then ((b - 0xF0) * 262144 + (b1 - 0x80) * 4096
                                         + (b2 - 0x80) * 64 + (b3 - 0x80)) # utf8_decode r3
                                 else 0xFFFD # utf8_decode (b3 # r3))))
      else 0xFFFD # utf8_decode bs)"

text \<open>
  \<^verbatim>\<open>unquote\<close>: text without \<^verbatim>\<open>%\<close> is returned as it is; otherwise every longest ASCII
  stretch is percent-decoded and read as UTF-8, and the characters between the stretches
  are kept.  \<open>run\<close> is the ASCII stretch read so far.
\<close>

fun unquote_runs :: "string \<Rightarrow> string \<Rightarrow> ustr" where
  "unquote_runs run [] = utf8_decode (unquote_to_bytes run)"
| "unquote_runs run (c # cs) =
     (if is_ascii c then unquote_runs (run @ [c]) cs
      else utf8_decode (unquote_to_bytes run) @ of_char c # unquote_runs [] cs)"

definition unquote :: "string \<Rightarrow> ustr" where
  "unquote s = (if CHR ''%'' \<notin> set s then U s else unquote_runs [] s)"

definition unquote_plus :: "string \<Rightarrow> ustr" where
  "unquote_plus s = unquote (map (\<lambda>c. if c = CHR ''+'' then CHR '' '' else c) s)"

subsection \<open>\<^verbatim>\<open>parse_qsl\<close>\<close>

text \<open>
  With the defaults: fields are separated by \<^verbatim>\<open>&\<close>; an empty field and a field whose value
  is empty are dropped; name and value are decoded with \<^verbatim>\<open>unquote_plus\<close>.
\<close>

definition parse_qsl :: "string \<Rightarrow> (ustr \<times> ustr) list" where
  "parse_qsl qs =
     (if qs = [] then []
      else concat (map (\<lambda>name_value.
             (let (name, v) = split1 CHR ''='' name_value
              in if name_value \<noteq> [] \<and> v \<noteq> [] then [(unquote_plus name, unquote_plus v)] else []))
           (split_on CHR ''&'' qs)))"

text \<open>\<^verbatim>\<open>dict(pairs).get(k, None)\<close>: the last pair with the key decides.\<close>

definition dict_get :: "('k \<times> 'v) list \<Rightarrow> 'k \<Rightarrow> 'v option" where
  "dict_get pairs k = map_of (rev pairs) k"

section \<open>Integers as text\<close>

text \<open>The default of \<^verbatim>\<open>sys.int_max_str_digits\<close>.\<close>

definition int_max_str_digits :: nat where
  "int_max_str_digits = 4300"

text \<open>
  \<^verbatim>\<open>'{:d}'.format(i)\<close>: the decimal digits, after a minus sign when \<open>i\<close> is negative; with more
  digits than the limit it raises \<^verbatim>\<open>ValueError\<close>.
\<close>

function dec_digits :: "nat \<Rightarrow> string" where
  "dec_digits n =
     (if n < 10 then [char_of (0x30 + n)]
      else dec_digits (n div 10) @ [char_of (0x30 + n mod 10)])"
  by pat_completeness auto
termination
  by (relation "measure (\<lambda>n. n)") auto

declare dec_digits.simps [simp del]

definition format_d :: "int \<Rightarrow> exn + string" where
  "format_d i =
     (if int_max_str_digits < length (dec_digits (nat \<bar>i\<bar>)) then Inl ValueError_int_max_str_digits
      else if i < 0 then Inr (CHR ''-'' # dec_digits (nat (- i)))
      else Inr (dec_digits (nat i)))"

text \<open>The text of an integer, for stating what \<^const>\<open>format_d\<close> returns within the limit.\<close>

definition digits_text :: "int \<Rightarrow> string" where
  "digits_text i = (if i < 0 then CHR ''-'' # dec_digits (nat (- i)) else dec_digits (nat i))"

text \<open>
  \<^verbatim>\<open>int(v)\<close> for text \<open>v\<close>, in base ten.  Blanks around the number are skipped: the ASCII
  blanks of C and the Unicode blanks above U+007F.  A sign may come first.  The digits are
  the decimal digits of any script, with single underscores allowed between digits, and
  there are at most as many of them as the limit allows.  \<open>None\<close> stands for \<^verbatim>\<open>ValueError\<close>.
\<close>

definition decimal_zeros :: "nat list" where
  "decimal_zeros =
     [0x30, 0x660, 0x6F0, 0x7C0, 0x966, 0x9E6, 0xA66, 0xAE6, 0xB66, 0xBE6, 0xC66, 0xCE6,
      0xD66, 0xDE6, 0xE50, 0xED0, 0xF20, 0x1040, 0x1090, 0x17E0, 0x1810, 0x1946, 0x19D0,
      0x1A80, 0x1A90, 0x1B50, 0x1BB0, 0x1C40, 0x1C50, 0xA620, 0xA8D0, 0xA900, 0xA9D0,
      0xA9F0, 0xAA50, 0xABF0, 0xFF10, 0x104A0, 0x10D30, 0x11066, 0x110F0, 0x11136,
      0x111D0, 0x112F0, 0x11450, 0x114D0, 0x11650, 0x116C0, 0x11730, 0x118E0, 0x11950,
      0x11C50, 0x11D50, 0x11DA0, 0x16A60, 0x16AC0, 0x16B50, 0x1D7CE, 0x1D7D8, 0x1D7E2,
      0x1D7EC, 0x1D7F6, 0x1E140, 0x1E2F0, 0x1E950, 0x1FBF0]"

text \<open>The value of a decimal digit: each script's digits are ten code points in a row.\<close>

definition to_decimal :: "nat \<Rightarrow> nat option" where
  "to_decimal cp =
     (case filter (\<lambda>z. z \<le> cp \<and> cp < z + 10) decimal_zeros of
        [] \<Rightarrow> None
      | z # _ \<Rightarrow> Some (cp - z))"

definition int_blank :: "nat \<Rightarrow> bool" where
  "int_blank cp =
     ((0x09 \<le> cp \<and> cp \<le> 0x0D) \<or> cp = 0x20 \<or> cp = 0x85 \<or> cp = 0xA0 \<or> cp = 0x1680
        \<or> (0x2000 \<le> cp \<and> cp \<le> 0x200A) \<or> cp = 0x2028 \<or> cp = 0x2029 \<or> cp = 0x202F
        \<or> cp = 0x205F \<or> cp = 0x3000)"

text \<open>
  The digits after the first one; \<open>k\<close> is the number of digits read so far and \<open>acc\<close> their
  value.
\<close>

fun more_digits :: "nat \<Rightarrow> nat \<Rightarrow> ustr \<Rightarrow> (nat \<times> nat \<times> ustr) option" where
  "more_digits k acc [] = Some (k, acc, [])"
| "more_digits k acc (c # cs) =
     (case to_decimal c of
        Some d \<Rightarrow> more_digits (Suc k) (10 * acc + d) cs
      | None \<Rightarrow>
          if c = 0x5F then
            (case cs of
               [] \<Rightarrow> None
             | c' # cs' \<Rightarrow>
                 (case to_decimal c' of
                    Some d \<Rightarrow> more_digits (Suc k) (10 * acc + d) cs'
                  | None \<Rightarrow> None))
          else Some (k, acc, c # cs))"

definition py_nat :: "ustr \<Rightarrow> nat option" where
  "py_nat s =
     (case s of
        [] \<Rightarrow> None
      | c # cs \<Rightarrow>
          (case to_decimal c of
             None \<Rightarrow> None
           | Some d \<Rightarrow>
               (case more_digits 1 d cs of
                  None \<Rightarrow> None
                | Some (k, n, rest) \<Rightarrow>
                    if list_all int_blank rest \<and> k \<le> int_max_str_digits then Some n
                    else None)))"

definition py_int :: "ustr \<Rightarrow> int option" where
  "py_int v =
     (case dropWhile int_blank v of
        [] \<Rightarrow> None
      | c # cs \<Rightarrow>
          if c = 0x2D then map_option (\<lambda>n. - int n) (py_nat cs)
          else if c = 0x2B then map_option int (py_nat cs)
          else map_option int (py_nat (c # cs)))"

section \<open>\<^verbatim>\<open>mk_part_uri\<close> and \<^verbatim>\<open>get_part_from_uri\<close>\<close>

definition mk_part_uri :: "string \<Rightarrow> int \<Rightarrow> exn + string" where
  "mk_part_uri uri idx =
     (case format_d idx of
        Inl e \<Rightarrow> Inl e
      | Inr digits \<Rightarrow> Inr (uri @ ''#part='' @ digits))"

text \<open>What \<^verbatim>\<open>get_part_from_uri\<close> returns besides \<^verbatim>\<open>None\<close>: an \<^verbatim>\<open>int\<close> or a \<^verbatim>\<open>str\<close>.\<close>

datatype part = PartInt int | PartStr ustr

definition maybe_int :: "ustr option \<Rightarrow> part option" where
  "maybe_int v =
     (case v of
        None \<Rightarrow> None
      | Some t \<Rightarrow> (case py_int t of Some n \<Rightarrow> Some (PartInt n) | None \<Rightarrow> Some (PartStr t)))"

definition get_part_from_uri :: "(string \<Rightarrow> bool) \<Rightarrow> string \<Rightarrow> exn + part option" where
  "get_part_from_uri ipv6 uri =
     (case urlparse ipv6 uri of
        Inl e \<Rightarrow> Inl e
      | Inr components \<Rightarrow>
          Inr (maybe_int (dict_get (parse_qsl (fragment components)) (U ''part''))))"

text \<open>
  The characters of a part value that reach the caller as they were written: \<^verbatim>\<open>parse_qsl\<close>
  cuts at \<^verbatim>\<open>&\<close>, reads \<^verbatim>\<open>+\<close> as a blank and decodes after \<^verbatim>\<open>%\<close>, and \<^verbatim>\<open>urlsplit\<close> removes
  tab, carriage return and line feed.
\<close>

definition plain_part_char :: "char \<Rightarrow> bool" where
  "plain_part_char c = (c \<noteq> CHR ''&'' \<and> c \<noteq> CHR ''+'' \<and> c \<noteq> CHR ''%'' \<and> \<not> unsafe_url_byte c)"

section \<open>The standard library: \<^verbatim>\<open>pathlib\<close> and \<^verbatim>\<open>posixpath\<close> on a POSIX host\<close>

text \<open>
  \<^verbatim>\<open>splitroot\<close> of the POSIX flavour: exactly two leading slashes are a root of their own,
  any other number of them is the root \<^verbatim>\<open>/\<close>.
\<close>

definition splitroot :: "ustr \<Rightarrow> ustr \<times> ustr" where
  "splitroot part =
     (if take 1 part = U ''/''
      then (let stripped_part = dropWhile (\<lambda>c. c = 0x2F) part
            in if length part - length stripped_part = 2 then (U ''//'', stripped_part)
               else (U ''/'', stripped_part))
      else ([], part))"

text \<open>The names in the part after the root: the pieces between slashes but \<^verbatim>\<open>''\<close> and \<^verbatim>\<open>'.'\<close>.\<close>

definition rel_names :: "ustr \<Rightarrow> ustr list" where
  "rel_names rel = filter (\<lambda>x. x \<noteq> [] \<and> x \<noteq> U ''.'') (split_on 0x2F rel)"

text \<open>
  \<^verbatim>\<open>parse_parts\<close> reads the parts from the last to the first and stops at a part with a
  root; empty parts are skipped.
\<close>

fun parse_parts :: "ustr list \<Rightarrow> ustr \<times> ustr list" where
  "parse_parts [] = ([], [])"
| "parse_parts (part # later) =
     (let (r, ns) = parse_parts later
      in if r \<noteq> [] \<or> part = [] then (r, ns)
         else (fst (splitroot part), rel_names (snd (splitroot part)) @ ns))"

definition from_parts :: "ustr list \<Rightarrow> path" where
  "from_parts args = (let (r, ns) = parse_parts args in Path r ns)"

text \<open>\<^verbatim>\<open>p._parts\<close>, and \<^verbatim>\<open>pathlib.Path(x)\<close> for text and for a path.\<close>

definition parts_of :: "path \<Rightarrow> ustr list" where
  "parts_of p = (if root p \<noteq> [] then [root p] else []) @ names p"

definition pathlib_Path :: "str_or_path \<Rightarrow> path" where
  "pathlib_Path a = (case a of AStr s \<Rightarrow> from_parts [U s] | APath p \<Rightarrow> from_parts (parts_of p))"

definition is_absolute :: "path \<Rightarrow> bool" where
  "is_absolute p = (root p \<noteq> [])"

text \<open>\<^verbatim>\<open>str(p)\<close>\<close>

definition str_path :: "path \<Rightarrow> ustr" where
  "str_path p =
     (let s = root p @ join_with 0x2F (names p) in if s = [] then U ''.'' else s)"

text \<open>\<^verbatim>\<open>p / key\<close> for a path \<open>key\<close>: a rooted \<open>key\<close> replaces \<open>p\<close>.\<close>

definition truediv :: "path \<Rightarrow> path \<Rightarrow> path" where
  "truediv p key =
     (let (root2, names2) = parse_parts (parts_of key)
      in if root2 \<noteq> [] then Path root2 names2 else Path (root p) (names p @ names2))"

text \<open>\<^verbatim>\<open>p.absolute()\<close>, with the text that \<^verbatim>\<open>os.getcwd()\<close> returns.\<close>

definition absolute :: "string \<Rightarrow> path \<Rightarrow> path" where
  "absolute cwd p =
     (if is_absolute p then p
      else from_parts (parts_of (pathlib_Path (AStr cwd)) @ parts_of p))"

text \<open>
  \<^verbatim>\<open>os.fsencode\<close> with UTF-8 as the filesystem encoding: the error handler
  \<^verbatim>\<open>surrogateescape\<close> turns U+DC80 to U+DCFF back into bytes, and any other surrogate raises
  \<^verbatim>\<open>UnicodeEncodeError\<close>.
\<close>

definition utf8_encode1 :: "nat \<Rightarrow> nat list option" where
  "utf8_encode1 cp =
     (if cp < 0x80 then Some [cp]
      else if cp < 0x800 then Some [0xC0 + cp div 64, 0x80 + cp mod 64]
      else if 0xDC80 \<le> cp \<and> cp \<le> 0xDCFF then Some [cp - 0xDC00]
      else if 0xD800 \<le> cp \<and> cp \<le> 0xDFFF then None
      else if cp < 0x10000 then Some [0xE0 + cp div 4096, 0x80 + cp div 64 mod 64, 0x80 + cp mod 64]
      else Some [0xF0 + cp div 262144, 0x80 + cp div 4096 mod 64, 0x80 + cp div 64 mod 64,
                 0x80 + cp mod 64])"

fun fsencode :: "ustr \<Rightarrow> exn + nat list" where
  "fsencode [] = Inr []"
| "fsencode (cp # cps) =
     (case utf8_encode1 cp of
        None \<Rightarrow> Inl UnicodeEncodeError
      | Some bs \<Rightarrow> (case fsencode cps of Inl e \<Rightarrow> Inl e | Inr rest \<Rightarrow> Inr (bs @ rest)))"

text \<open>
  \<^verbatim>\<open>quote_from_bytes(bs, safe='/')\<close>: a byte that is an ASCII letter, a digit, one of
  \<^verbatim>\<open>_.-~\<close> or \<^verbatim>\<open>/\<close> is kept, any other byte becomes \<^verbatim>\<open>%XX\<close> in upper-case hexadecimal.
\<close>

definition safe_byte :: "nat \<Rightarrow> bool" where
  "safe_byte b =
     ((0x41 \<le> b \<and> b \<le> 0x5A) \<or> (0x61 \<le> b \<and> b \<le> 0x7A) \<or> (0x30 \<le> b \<and> b \<le> 0x39)
        \<or> b = 0x5F \<or> b = 0x2E \<or> b = 0x2D \<or> b = 0x7E \<or> b = 0x2F)"

definition hex_upper :: "nat \<Rightarrow> char" where
  "hex_upper d = (if d < 10 then char_of (0x30 + d) else char_of (0x37 + d))"

definition quote_byte :: "nat \<Rightarrow> string" where
  "quote_byte b =
     (if safe_byte b then [char_of b] else [CHR ''%'', hex_upper (b div 16), hex_upper (b mod 16)])"

definition quote_from_bytes :: "nat list \<Rightarrow> string" where
  "quote_from_bytes bs = concat (map quote_byte bs)"

text \<open>\<^verbatim>\<open>p.as_uri()\<close>\<close>

definition as_uri :: "path \<Rightarrow> exn + string" where
  "as_uri p =
     (if \<not> is_absolute p then Inl ValueError_relative_path_as_URI
      else (case fsencode (str_path p) of
              Inl e \<Rightarrow> Inl e
            | Inr bpath \<Rightarrow> Inr (''file://'' @ quote_from_bytes bpath)))"

text \<open>
  \<^verbatim>\<open>posixpath.normpath\<close>.  One step of its loop over the components: \<open>rooted\<close> says
  whether the path began with a slash, \<open>new_comps\<close> is the list built so far.
\<close>

definition normpath_step :: "bool \<Rightarrow> ustr list \<Rightarrow> ustr \<Rightarrow> ustr list" where
  "normpath_step rooted new_comps component =
     (if component = [] \<or> component = U ''.'' then new_comps
      else if component \<noteq> U ''..'' \<or> (\<not> rooted \<and> new_comps = [])
              \<or> (new_comps \<noteq> [] \<and> last new_comps = U ''..'')
      then new_comps @ [component]
      else if new_comps \<noteq> [] then butlast new_comps
      else new_comps)"

definition initial_slashes :: "ustr \<Rightarrow> nat" where
  "initial_slashes p =
     (if take 1 p = U ''/''
      then (if take 2 p = U ''//'' \<and> take 3 p \<noteq> U ''///'' then 2 else 1)
      else 0)"

definition normpath :: "ustr \<Rightarrow> ustr" where
  "normpath p =
     (if p = [] then U ''.''
      else (let new_comps = foldl (normpath_step (0 < initial_slashes p)) [] (split_on 0x2F p);
                r = replicate (initial_slashes p) 0x2F @ join_with 0x2F new_comps
            in if r = [] then U ''.'' else r))"

text \<open>
  The paths that \<^verbatim>\<open>pathlib\<close> builds: the root is empty, \<^verbatim>\<open>/\<close> or \<^verbatim>\<open>//\<close>, and no name is empty,
  is \<^verbatim>\<open>.\<close> or holds a slash.
\<close>

definition wf_path :: "path \<Rightarrow> bool" where
  "wf_path p =
     ((root p = [] \<or> root p = U ''/'' \<or> root p = U ''//'')
      \<and> (\<forall>n \<in> set (names p). n \<noteq> [] \<and> n \<noteq> U ''.'' \<and> 0x2F \<notin> set n))"

text \<open>
  A path in lexical normal form: absolute, with no name that is empty, \<^verbatim>\<open>.\<close> or \<^verbatim>\<open>..\<close>, and no
  slash inside a name.
\<close>

definition lexically_normal :: "path \<Rightarrow> bool" where
  "lexically_normal p =
     ((root p = U ''/'' \<or> root p = U ''//'')
      \<and> (\<forall>n \<in> set (names p). n \<noteq> [] \<and> n \<noteq> U ''.'' \<and> n \<noteq> U ''..'' \<and> 0x2F \<notin> set n))"

text \<open>The two conditions on names alone.\<close>

definition good_names :: "ustr list \<Rightarrow> bool" where
  "good_names ns = (\<forall>n \<in> set ns. n \<noteq> [] \<and> n \<noteq> U ''.'' \<and> 0x2F \<notin> set n)"

definition normal_names :: "ustr list \<Rightarrow> bool" where
  "normal_names ns = (\<forall>n \<in> set ns. n \<noteq> [] \<and> n \<noteq> U ''.'' \<and> n \<noteq> U ''..'' \<and> 0x2F \<notin> set n)"



text \<open>
  Collapsing the names of an absolute path, one step at a time: a name that is not \<^verbatim>\<open>..\<close>
  goes together with a \<^verbatim>\<open>..\<close> that follows it, and a \<^verbatim>\<open>..\<close> in front goes alone, the root being
  its own parent.  The lexical normal form of the names is what is left when no step
  applies, that is when no \<^verbatim>\<open>..\<close> is left.  The relation is not part of the program: it says
  what collapsing means, and \<^verbatim>\<open>normpath\<close> is compared with it.
\<close>

inductive collapses :: "ustr list \<Rightarrow> ustr list \<Rightarrow> bool" where
  parent: "x \<noteq> U ''..'' \<Longrightarrow> collapses (a @ x # U ''..'' # b) (a @ b)"
| root_parent: "collapses (U ''..'' # b) b"

text \<open>
  Walking the names from the root with the directories entered so far, the innermost
  first: \<^verbatim>\<open>..\<close> leaves the innermost one, any other name enters.  This function too is not
  part of the program; it serves to show that collapsing has one result only.
\<close>

fun climb :: "ustr list \<Rightarrow> ustr list \<Rightarrow> ustr list" where
  "climb entered [] = rev entered"
| "climb entered (n # ns) =
     (if n = U ''..'' then climb (tl entered) ns else climb (n # entered) ns)"

section \<open>\<^verbatim>\<open>url2pathname\<close>\<close>

text \<open>
  \<^verbatim>\<open>nturl2path.url2pathname\<close>, which \<^verbatim>\<open>urllib.request\<close> uses when \<^verbatim>\<open>os.name\<close> is \<^verbatim>\<open>'nt'\<close>.  A
  path without a drive has its slashes turned and is decoded; a path with a drive must
  have one \<^verbatim>\<open>:\<close> or \<^verbatim>\<open>|\<close>, after a letter.
\<close>

definition nt_url2pathname :: "string \<Rightarrow> exn + ustr" where
  "nt_url2pathname url0 =
     (let url = map (\<lambda>c. if c = CHR '':'' then CHR ''|'' else c) url0
      in if CHR ''|'' \<notin> set url
         then (let url' = (if take 4 url = ''////'' then drop 2 url else url)
               in Inr (unquote (join_with (CHR 0x5C) (split_on CHR ''/'' url'))))
         else (case split_on CHR ''|'' url of
                 [comp0, comp1] \<Rightarrow>
                   if comp0 = [] then Inl IndexError
                   else if \<not> ascii_alpha (last comp0) then Inl OSError
                   else (let path0 = U [ascii_upper (last comp0), CHR '':''];
                             path1 = foldl (\<lambda>path c. if c \<noteq> [] then path @ 0x5C # unquote c else path)
                                       path0 (split_on CHR ''/'' comp1)
                         in Inr (if path1 \<noteq> [] \<and> last path1 = 0x3A
                                    \<and> url \<noteq> [] \<and> last url = CHR ''/''
                                 then path1 @ [0x5C] else path1))
               | _ \<Rightarrow> Inl OSError))"

text \<open>\<^verbatim>\<open>urllib.request.url2pathname\<close> as \<^verbatim>\<open>os.name\<close> selects it.\<close>

definition url2pathname :: "string \<Rightarrow> string \<Rightarrow> exn + ustr" where
  "url2pathname os_name pathname =
     (if os_name = ''nt'' then nt_url2pathname pathname else Inr (unquote pathname))"

text \<open>\<^verbatim>\<open>pathlib.Path(s)\<close> for text on the running host.\<close>

definition native_Path :: "string \<Rightarrow> ustr \<Rightarrow> native_path" where
  "native_Path os_name s = (if os_name = ''nt'' then WindowsPath s else PosixPath (from_parts [s]))"

section \<open>\<^verbatim>\<open>uri_to_local_path\<close>\<close>

definition uri_to_local_path ::
  "(string \<Rightarrow> bool) \<Rightarrow> string \<Rightarrow> string option \<Rightarrow> exn + native_path option" where
  "uri_to_local_path ipv6 os_name local_uri =
     (case local_uri of
        None \<Rightarrow> Inr None
      | Some uri \<Rightarrow>
          if uri = [] then Inr None
          else (case urlparse ipv6 uri of
                  Inl e \<Rightarrow> Inl e
                | Inr components \<Rightarrow>
                    if scheme components \<noteq> ''file''
                    then Inl (ValueError_only_file_URIs (scheme components))
                    else (case url2pathname os_name (path components) of
                            Inl e \<Rightarrow> Inl e
                          | Inr pth \<Rightarrow>
                              if netloc components \<noteq> []
                              then (if os_name = ''nt''
                                    then Inr (Some (native_Path os_name
                                                (U ''//'' @ U (netloc components) @ pth)))
                                    else Inl ValueError_netloc_only_on_Windows)
                              else Inr (Some (native_Path os_name pth)))))"

section \<open>\<^verbatim>\<open>default_base_dir\<close>, \<^verbatim>\<open>normalise_path\<close> and \<^verbatim>\<open>as_url\<close> on a POSIX host\<close>

text \<open>
  What the process reads from outside: the variable \<^verbatim>\<open>PWD\<close> of \<^verbatim>\<open>os.environ\<close>, the text of
  \<^verbatim>\<open>os.getcwd()\<close>, and \<^verbatim>\<open>Path.resolve()\<close>, which asks the filesystem and either returns a
  path or raises: \<^verbatim>\<open>OSError\<close> (of which \<^verbatim>\<open>IOError\<close> is another name), or \<^verbatim>\<open>RuntimeError\<close> at a
  loop of symbolic links.
\<close>

record runtime =
  environ_PWD :: "string option"
  getcwd :: string
  resolve :: "path \<Rightarrow> exn + path"

definition default_base_dir :: "runtime \<Rightarrow> exn + path" where
  "default_base_dir rt =
     (case resolve rt (pathlib_Path (AStr ''.'')) of
        Inl e \<Rightarrow> Inl e
      | Inr cwd \<Rightarrow>
          (case environ_PWD rt of
             None \<Rightarrow> Inr cwd
           | Some pwd_text \<Rightarrow>
               (let pwd = pathlib_Path (AStr pwd_text)
                in if \<not> is_absolute pwd then Inr cwd
                   else (case resolve rt pwd of
                           Inl OSError \<Rightarrow> Inr cwd
                         | Inl e \<Rightarrow> Inl e
                         | Inr pwd_resolved \<Rightarrow>
                             if cwd \<noteq> pwd_resolved then Inr cwd else Inr pwd))))"

text \<open>The inner \<^verbatim>\<open>norm\<close> of \<^verbatim>\<open>normalise_path\<close>.\<close>

definition norm :: "path \<Rightarrow> path" where
  "norm p = from_parts [normpath (str_path p)]"

text \<open>
  The two assertions of \<^verbatim>\<open>normalise_path\<close> hold by the types of \<open>p\<close> and \<open>base\<close>.  Text is made
  a path; a path is taken as it is.
\<close>

definition as_path :: "str_or_path \<Rightarrow> path" where
  "as_path a = (case a of AStr s \<Rightarrow> pathlib_Path (AStr s) | APath p \<Rightarrow> p)"

definition normalise_path :: "runtime \<Rightarrow> str_or_path \<Rightarrow> str_or_path option \<Rightarrow> exn + path" where
  "normalise_path rt p0 base0 =
     (let p = as_path p0; base = map_option as_path base0
      in if is_absolute p then Inr (norm p)
         else (case base of
                 None \<Rightarrow>
                   (case default_base_dir rt of
                      Inl e \<Rightarrow> Inl e
                    | Inr b \<Rightarrow> Inr (norm (truediv b p)))
               | Some b \<Rightarrow>
                   if \<not> is_absolute b then Inl ValueError_base_not_absolute
                   else Inr (norm (truediv b p))))"

definition as_url :: "runtime \<Rightarrow> str_or_path \<Rightarrow> exn + str_or_path" where
  "as_url rt maybe_uri =
     (case is_url (to_obj maybe_uri) of
        Inl e \<Rightarrow> Inl e
      | Inr True \<Rightarrow> Inr maybe_uri
      | Inr False \<Rightarrow>
          (case as_uri (absolute (getcwd rt) (pathlib_Path maybe_uri)) of
             Inl e \<Rightarrow> Inl e
           | Inr uri \<Rightarrow> Inr (AStr uri)))"

section \<open>Hosts to evaluate on\<close>

text \<open>
  A process started by a shell in \<^verbatim>\<open>/home/u/link\<close>, a symbolic link to \<^verbatim>\<open>/data/real\<close>: the
  variable \<^verbatim>\<open>PWD\<close> holds the path the user sees, the kernel the resolved one.  Every other
  path resolves to itself.
\<close>

definition linked_runtime :: runtime where
  "linked_runtime =
     \<lparr>environ_PWD = Some ''/home/u/link'',
      getcwd = ''/data/real'',
      resolve = (\<lambda>p. if p = pathlib_Path (AStr ''.'') \<or> p = pathlib_Path (AStr ''/home/u/link'')
                      then Inr (pathlib_Path (AStr ''/data/real'')) else Inr p)\<rparr>"

text \<open>
  The same process when \<^verbatim>\<open>PWD\<close> names \<^verbatim>\<open>/tmp/loop\<close>, a symbolic link to itself:
  \<^verbatim>\<open>Path.resolve()\<close> raises \<^verbatim>\<open>RuntimeError\<close> there (\<^verbatim>\<open>Symlink loop from ...\<close>, up to Python 3.12).
\<close>

definition loop_runtime :: runtime where
  "loop_runtime =
     \<lparr>environ_PWD = Some ''/tmp/loop'',
      getcwd = ''/data/real'',
      resolve = (\<lambda>p. if p = pathlib_Path (AStr ''.'') then Inr (pathlib_Path (AStr ''/data/real''))
                      else if p = pathlib_Path (AStr ''/tmp/loop'') then Inl RuntimeError
                      else Inr p)\<rparr>"

section \<open>What a match is\<close>

lemma nullable_lang: "nullable r \<longleftrightarrow> [] \<in> lang r"
  by (induction r) (auto intro: star_words.intros)

lemma star_words_Cons:
  "c # w \<in> star_words A \<longleftrightarrow> (\<exists>u v. w = u @ v \<and> c # u \<in> A \<and> v \<in> star_words A)"
proof
  assume "c # w \<in> star_words A"
  then show "\<exists>u v. w = u @ v \<and> c # u \<in> A \<and> v \<in> star_words A"
  proof (induction "c # w" arbitrary: w rule: star_words.induct)
    case (star_app u v)
    show ?case
    proof (cases u)
      case Nil
      with star_app show ?thesis by simp
    next
      case (Cons a u')
      with star_app have "a = c" "w = u' @ v" by auto
      with star_app Cons show ?thesis by blast
    qed
  qed
next
  assume "\<exists>u v. w = u @ v \<and> c # u \<in> A \<and> v \<in> star_words A"
  then obtain u v where "w = u @ v" "c # u \<in> A" "v \<in> star_words A" by blast
  then have "(c # u) @ v \<in> star_words A" by (intro star_words.star_app)
  with \<open>w = u @ v\<close> show "c # w \<in> star_words A" by simp
qed

lemma deriv_lang: "lang (deriv c r) = {w. c # w \<in> lang r}"
proof (induction r)
  case (Seq r s)
  show ?case
  proof (cases "nullable r")
    case True
    then show ?thesis
      using Seq by (auto simp: nullable_lang Cons_eq_append_conv)
  next
    case False
    then show ?thesis
      using Seq by (auto simp: nullable_lang Cons_eq_append_conv)
  qed
next
  case (Star r)
  then show ?case by (auto simp: star_words_Cons)
qed auto

lemma re_match_iff: "re_match r s \<longleftrightarrow> (\<exists>p q. s = p @ q \<and> p \<in> lang r)"
proof (induction s arbitrary: r)
  case Nil
  then show ?case by (simp add: nullable_lang)
next
  case (Cons c cs)
  show ?case
  proof
    assume "re_match r (c # cs)"
    then consider "nullable r" | "re_match (deriv c r) cs" by auto
    then show "\<exists>p q. c # cs = p @ q \<and> p \<in> lang r"
    proof cases
      case 1
      then have "c # cs = [] @ (c # cs) \<and> [] \<in> lang r" by (simp add: nullable_lang)
      then show ?thesis by blast
    next
      case 2
      then obtain p q where "cs = p @ q" "p \<in> lang (deriv c r)" using Cons.IH by blast
      then have "c # cs = (c # p) @ q \<and> c # p \<in> lang r" by (simp add: deriv_lang)
      then show ?thesis by blast
    qed
  next
    assume "\<exists>p q. c # cs = p @ q \<and> p \<in> lang r"
    then obtain p q where pq: "c # cs = p @ q" "p \<in> lang r" by blast
    show "re_match r (c # cs)"
    proof (cases p)
      case Nil
      with pq have "nullable r" by (simp add: nullable_lang)
      then show ?thesis by simp
    next
      case (Cons a p')
      with pq have "cs = p' @ q" "p' \<in> lang (deriv c r)" by (auto simp: deriv_lang)
      then show ?thesis using Cons.IH by auto
    qed
  qed
qed

lemma re_fullmatch_iff: "re_fullmatch r s \<longleftrightarrow> s \<in> lang r"
  by (induction s arbitrary: r) (simp_all add: nullable_lang deriv_lang)

lemma star_words_Cls: "star_words {[c] | c. P c} = {w. \<forall>c \<in> set w. P c}"
proof (intro set_eqI iffI)
  fix w assume "w \<in> star_words {[c] | c. P c}"
  then show "w \<in> {w. \<forall>c \<in> set w. P c}"
    by (induction rule: star_words.induct) auto
next
  fix w assume "w \<in> {w. \<forall>c \<in> set w. P c}"
  then have "\<forall>c \<in> set w. P c" by simp
  then show "w \<in> star_words {[c] | c. P c}"
  proof (induction w)
    case Nil
    show ?case by (rule star_words.star_nil)
  next
    case (Cons a w)
    then have "[a] \<in> {[c] | c. P c}" "w \<in> star_words {[c] | c. P c}" by auto
    then have "[a] @ w \<in> star_words {[c] | c. P c}" by (rule star_words.star_app)
    then show ?case by simp
  qed
qed

lemma lang_Lit: "lang (Lit l) = {l}"
  by (induction l) auto

lemma lang_Plus_Cls: "lang (Plus (Cls P)) = {w. w \<noteq> [] \<and> (\<forall>c \<in> set w. P c)}"
proof (intro set_eqI iffI)
  fix w assume "w \<in> lang (Plus (Cls P))"
  then show "w \<in> {w. w \<noteq> [] \<and> (\<forall>c \<in> set w. P c)}"
    by (auto simp: Plus_def star_words_Cls)
next
  fix w assume "w \<in> {w. w \<noteq> [] \<and> (\<forall>c \<in> set w. P c)}"
  then obtain a v where "w = [a] @ v" "P a" "\<forall>c \<in> set v. P c"
    by (cases w) auto
  then have "w = [a] @ v \<and> [a] \<in> lang (Cls P) \<and> v \<in> lang (Star (Cls P))"
    by (simp add: star_words_Cls)
  then show "w \<in> lang (Plus (Cls P))"
    unfolding Plus_def lang.simps(5) by blast
qed

lemma lang_scheme_pattern:
  "lang (Seq (Star (Cls S)) (Seq (Plus (Cls P)) (Lit l))) =
     {ws @ sch @ l | ws sch. (\<forall>c \<in> set ws. S c) \<and> sch \<noteq> [] \<and> (\<forall>c \<in> set sch. P c)}"
  by (simp only: lang.simps(5) lang_Plus_Cls lang.simps(6) lang.simps(3) star_words_Cls lang_Lit) blast

lemma re_match_scheme_pattern:
  "re_match (Seq (Star (Cls S)) (Seq (Plus (Cls P)) (Lit l))) s \<longleftrightarrow>
     (\<exists>ws sch rest. s = ws @ sch @ l @ rest \<and> (\<forall>c \<in> set ws. S c) \<and> sch \<noteq> []
        \<and> (\<forall>c \<in> set sch. P c))"
proof
  assume "re_match (Seq (Star (Cls S)) (Seq (Plus (Cls P)) (Lit l))) s"
  then obtain p q where "s = p @ q" "p \<in> lang (Seq (Star (Cls S)) (Seq (Plus (Cls P)) (Lit l)))"
    unfolding re_match_iff by blast
  then obtain ws sch where "s = (ws @ sch @ l) @ q" "\<forall>c \<in> set ws. S c" "sch \<noteq> []"
      "\<forall>c \<in> set sch. P c"
    unfolding lang_scheme_pattern by blast
  then have "s = ws @ sch @ l @ q \<and> (\<forall>c \<in> set ws. S c) \<and> sch \<noteq> [] \<and> (\<forall>c \<in> set sch. P c)"
    by simp
  then show "\<exists>ws sch rest. s = ws @ sch @ l @ rest \<and> (\<forall>c \<in> set ws. S c) \<and> sch \<noteq> []
      \<and> (\<forall>c \<in> set sch. P c)"
    by blast
next
  assume "\<exists>ws sch rest. s = ws @ sch @ l @ rest \<and> (\<forall>c \<in> set ws. S c) \<and> sch \<noteq> []
      \<and> (\<forall>c \<in> set sch. P c)"
  then obtain ws sch rest where h: "s = ws @ sch @ l @ rest" "\<forall>c \<in> set ws. S c" "sch \<noteq> []"
      "\<forall>c \<in> set sch. P c"
    by blast
  then have "ws @ sch @ l \<in> lang (Seq (Star (Cls S)) (Seq (Plus (Cls P)) (Lit l)))"
    unfolding lang_scheme_pattern by blast
  moreover have "s = (ws @ sch @ l) @ rest" using h by simp
  ultimately show "re_match (Seq (Star (Cls S)) (Seq (Plus (Cls P)) (Lit l))) s"
    unfolding re_match_iff by blast
qed

section \<open>\<^verbatim>\<open>is_url\<close> and its pattern\<close>


lemmas class_defs = re_s_def re_w_def re_d_def py_isspace_def py_isalnum_def in_range_def
  ascii_alpha_def ascii_digit_def spec_scheme_char_def is_ascii_def

lemma is_url_Str: "is_url (Str s) = Inr (re_match URL_RE s)"
  by (simp add: is_url_def Pattern_match_def)

lemma is_url_not_Str: "(\<forall>s. v \<noteq> Str s) \<Longrightarrow> is_url v = Inr False"
  by (cases v) (simp_all add: is_url_def Pattern_match_def)

lemma re_match_URL_RE:
  "re_match URL_RE s = matches_scheme_pattern re_s (\<lambda>c. re_w c \<or> re_d c \<or> c = CHR ''+'') s"
  unfolding URL_RE_def matches_scheme_pattern_def by (rule re_match_scheme_pattern)

lemma re_match_spec_URL_RE:
  "re_match spec_URL_RE s = matches_scheme_pattern re_s spec_scheme_char s"
  unfolding spec_URL_RE_def matches_scheme_pattern_def by (rule re_match_scheme_pattern)

lemma ascii_scheme_char:
  "is_ascii c \<Longrightarrow> (re_w c \<or> re_d c \<or> c = CHR ''+'') = spec_scheme_char c"
  unfolding class_defs by (auto simp: list_ex_iff)

lemma matches_scheme_pattern_mono:
  assumes "matches_scheme_pattern S P s" and "\<forall>c \<in> set s. P c \<longrightarrow> Q c"
  shows "matches_scheme_pattern S Q s"
proof -
  from assms(1) obtain ws sch rest where h: "s = ws @ sch @ ''://'' @ rest"
      "\<forall>c \<in> set ws. S c" "sch \<noteq> []" "\<forall>c \<in> set sch. P c"
    unfolding matches_scheme_pattern_def by blast
  from h(1) have "set sch \<subseteq> set s" by auto
  with h(4) assms(2) have "\<forall>c \<in> set sch. Q c" by blast
  with h(1,2,3) show ?thesis unfolding matches_scheme_pattern_def by blast
qed

lemma matches_scheme_pattern_cong:
  assumes "\<forall>c \<in> set s. P c = Q c"
  shows "matches_scheme_pattern S P s = matches_scheme_pattern S Q s"
  using assms matches_scheme_pattern_mono [of S P s Q] matches_scheme_pattern_mono [of S Q s P]
  by blast

text \<open>
  Claim C2, as the code has it: on text, \<^verbatim>\<open>is_url\<close> answers whether the text matches
  \<^verbatim>\<open>^\s*[\w\d+]+://\<close> with the Unicode classes of a \<^verbatim>\<open>str\<close> pattern; on text that is all
  ASCII this is the pattern \<^verbatim>\<open>^\s*[A-Za-z0-9_+]+://\<close>; on anything that is not text it
  answers false, and it never raises.
\<close>

theorem is_url_pattern:
  "is_url (Str s) = Inr (matches_scheme_pattern re_s (\<lambda>c. re_w c \<or> re_d c \<or> c = CHR ''+'') s)
   \<and> ((\<forall>c \<in> set s. is_ascii c) \<longrightarrow>
        is_url (Str s) = Inr (matches_scheme_pattern re_s spec_scheme_char s))
   \<and> ((\<forall>t. v \<noteq> Str t) \<longrightarrow> is_url v = Inr False)"
proof (intro conjI impI)
  show a: "is_url (Str s) = Inr (matches_scheme_pattern re_s (\<lambda>c. re_w c \<or> re_d c \<or> c = CHR ''+'') s)"
    by (simp only: is_url_Str re_match_URL_RE)
  show "is_url (Str s) = Inr (matches_scheme_pattern re_s spec_scheme_char s)"
    if "\<forall>c \<in> set s. is_ascii c"
  proof -
    have "\<forall>c \<in> set s. (re_w c \<or> re_d c \<or> c = CHR ''+'') = spec_scheme_char c"
      using that ascii_scheme_char by blast
    then have "matches_scheme_pattern re_s (\<lambda>c. re_w c \<or> re_d c \<or> c = CHR ''+'') s
        = matches_scheme_pattern re_s spec_scheme_char s"
      by (rule matches_scheme_pattern_cong)
    with a show ?thesis by simp
  qed
  show "is_url v = Inr False" if "\<forall>t. v \<noteq> Str t"
    using that by (rule is_url_not_Str)
qed

text \<open>
  Claim C2 as stated fails on a scheme with a letter outside ASCII: \<^verbatim>\<open>\w\<close> accepts
  U+00E9, the class \<^verbatim>\<open>[A-Za-z0-9_+]\<close> does not.
\<close>

theorem is_url_non_ascii_scheme:
  "\<not> (is_url (Str (CHR 0xE9 # ''://x'')) = Inr True
        \<longleftrightarrow> matches_scheme_pattern re_s spec_scheme_char (CHR 0xE9 # ''://x''))"
proof -
  have "is_url (Str (CHR 0xE9 # ''://x'')) = Inr True"
    by (simp add: is_url_Str URL_RE_def Plus_def class_defs)
  moreover have "\<not> re_match spec_URL_RE (CHR 0xE9 # ''://x'')"
    by (simp add: spec_URL_RE_def Plus_def class_defs)
  ultimately show ?thesis
    by (simp only: re_match_spec_URL_RE) simp
qed

text \<open>
  Claim C2 at the docstring's inputs \<^verbatim>\<open>'s3:///etc/blah'\<close> and \<^verbatim>\<open>'/etc/blah'\<close>, and at
  \<^verbatim>\<open>None\<close>.
\<close>

theorem is_url_pattern_witness:
  "is_url (Str ''s3:///etc/blah'') = Inr True \<and> is_url (Str ''/etc/blah'') = Inr False
   \<and> is_url NoneV = Inr False"
proof -
  have m: "matches_scheme_pattern re_s spec_scheme_char ''s3:///etc/blah''"
    unfolding matches_scheme_pattern_def
    by (rule exI [of _ "''''"], rule exI [of _ "''s3''"], rule exI [of _ "''/etc/blah''"])
       (simp add: class_defs)
  have n: "\<not> matches_scheme_pattern re_s spec_scheme_char ''/etc/blah''"
    unfolding re_match_spec_URL_RE [symmetric]
    by (simp add: spec_URL_RE_def Plus_def class_defs)
  have a1: "\<forall>c \<in> set ''s3:///etc/blah''. is_ascii c" by (simp add: is_ascii_def)
  have a2: "\<forall>c \<in> set ''/etc/blah''. is_ascii c" by (simp add: is_ascii_def)
  have o: "\<forall>t. NoneV \<noteq> Str t" by simp
  note t1 = is_url_pattern [of "''s3:///etc/blah''" NoneV]
  note t2 = is_url_pattern [of "''/etc/blah''" NoneV]
  from t1 a1 have "is_url (Str ''s3:///etc/blah'') =
      Inr (matches_scheme_pattern re_s spec_scheme_char ''s3:///etc/blah'')" by blast
  with m have "is_url (Str ''s3:///etc/blah'') = Inr True" by simp
  moreover from t1 o have "is_url NoneV = Inr False" by blast
  moreover from t2 a2 have "is_url (Str ''/etc/blah'') =
      Inr (matches_scheme_pattern re_s spec_scheme_char ''/etc/blah'')" by blast
  with n have "is_url (Str ''/etc/blah'') = Inr False" by simp
  ultimately show ?thesis by blast
qed

section \<open>The part codec\<close>

lemma to_decimal_ascii: "0x30 \<le> cp \<Longrightarrow> cp < 0x3A \<Longrightarrow> to_decimal cp = Some (cp - 0x30)"
proof -
  assume h: "0x30 \<le> cp" "cp < 0x3A"
  obtain t where t: "decimal_zeros = 0x30 # t" by (simp add: decimal_zeros_def)
  show ?thesis using h by (simp add: to_decimal_def t)
qed


lemma U_digit: "(k::nat) < 10 \<Longrightarrow> U [char_of (0x30 + k)] = [0x30 + k]"
  by (simp add: U_def)

lemma more_digits_digit:
  "d < 10 \<Longrightarrow> more_digits k acc ((0x30 + d) # r) = more_digits (Suc k) (10 * acc + d) r"
proof -
  assume "d < 10"
  then have "to_decimal (0x30 + d) = Some d"
    using to_decimal_ascii [of "0x30 + d"] by simp
  then show ?thesis by simp
qed

lemma U_append: "U (a @ b) = U a @ U b"
  by (simp add: U_def)

lemma more_digits_dec_digits:
  "more_digits k acc (U (dec_digits n) @ r)
     = more_digits (k + length (dec_digits n)) (acc * 10 ^ length (dec_digits n) + n) r"
proof (induction n arbitrary: r rule: dec_digits.induct)
  case (1 n)
  show ?case
  proof (cases "n < 10")
    case True
    then have e: "dec_digits n = [char_of (0x30 + n)]" by (subst dec_digits.simps) simp
    have "more_digits k acc (U (dec_digits n) @ r) = more_digits k acc ((0x30 + n) # r)"
      by (simp only: e U_digit [OF True] append_Cons append_Nil)
    also have "\<dots> = more_digits (Suc k) (10 * acc + n) r"
      by (rule more_digits_digit [OF True])
    also have "Suc k = k + length (dec_digits n)" by (simp add: e)
    also have "10 * acc + n = acc * 10 ^ length (dec_digits n) + n"
      by (simp add: e)
    finally show ?thesis .
  next
    case False
    have m: "n mod 10 < 10" by simp
    have e: "dec_digits n = dec_digits (n div 10) @ [char_of (0x30 + n mod 10)]"
      using False by (subst dec_digits.simps) simp
    let ?L = "length (dec_digits (n div 10))"
    have "more_digits k acc (U (dec_digits n) @ r)
        = more_digits k acc (U (dec_digits (n div 10)) @ ((0x30 + n mod 10) # r))"
      by (simp add: e U_append U_digit [OF m])
    also have "\<dots> = more_digits (k + ?L) (acc * 10 ^ ?L + n div 10) ((0x30 + n mod 10) # r)"
      using False by (rule "1.IH")
    also have "\<dots> = more_digits (Suc (k + ?L)) (10 * (acc * 10 ^ ?L + n div 10) + n mod 10) r"
      by (rule more_digits_digit [OF m])
    also have "Suc (k + ?L) = k + length (dec_digits n)" by (simp add: e)
    also have "10 * (acc * 10 ^ ?L + n div 10) + n mod 10 = acc * 10 ^ length (dec_digits n) + n"
      by (simp add: e algebra_simps)
    finally show ?thesis .
  qed
qed

lemma dec_digits_hd:
  "\<exists>(k::nat) cs. k < 10 \<and> dec_digits n = char_of (0x30 + k) # cs"
proof (induction n rule: dec_digits.induct)
  case (1 n)
  show ?case
  proof (cases "n < 10")
    case True
    then have "dec_digits n = char_of (0x30 + n) # []" by (subst dec_digits.simps) simp
    with True show ?thesis by blast
  next
    case False
    then obtain k :: nat and cs where "k < 10" "dec_digits (n div 10) = char_of (0x30 + k) # cs"
      using "1.IH" by blast
    moreover have "dec_digits n = dec_digits (n div 10) @ [char_of (0x30 + n mod 10)]"
      using False by (subst dec_digits.simps) simp
    ultimately have "dec_digits n = char_of (0x30 + k) # (cs @ [char_of (0x30 + n mod 10)])"
      by simp
    with \<open>k < 10\<close> show ?thesis by blast
  qed
qed

lemma dec_digits_upper: "n < 10 ^ length (dec_digits n)"
proof (induction n rule: dec_digits.induct)
  case (1 n)
  show ?case
  proof (cases "n < 10")
    case True
    then have "dec_digits n = [char_of (0x30 + n)]" by (subst dec_digits.simps) simp
    with True show ?thesis by simp
  next
    case False
    then have e: "dec_digits n = dec_digits (n div 10) @ [char_of (0x30 + n mod 10)]"
      by (subst dec_digits.simps) simp
    have "n div 10 < 10 ^ length (dec_digits (n div 10))" using False by (rule "1.IH")
    then have "n < 10 * 10 ^ length (dec_digits (n div 10))" by simp
    then show ?thesis by (simp add: e)
  qed
qed

lemma dec_digits_lower: "n \<noteq> 0 \<Longrightarrow> 10 ^ (length (dec_digits n) - 1) \<le> n"
proof (induction n rule: dec_digits.induct)
  case (1 n)
  show ?case
  proof (cases "n < 10")
    case True
    then have "dec_digits n = [char_of (0x30 + n)]" by (subst dec_digits.simps) simp
    with "1.prems" show ?thesis by simp
  next
    case False
    then have e: "dec_digits n = dec_digits (n div 10) @ [char_of (0x30 + n mod 10)]"
      by (subst dec_digits.simps) simp
    let ?L = "length (dec_digits (n div 10))"
    have "n div 10 \<noteq> 0" using False by simp
    then have ih: "10 ^ (?L - 1) \<le> n div 10" using "1.IH" [OF False] by simp
    obtain k :: nat and cs where "dec_digits (n div 10) = char_of (0x30 + k) # cs"
      using dec_digits_hd by blast
    then have "?L = Suc (?L - 1)" by simp
    then have "(10::nat) ^ ?L = 10 * 10 ^ (?L - 1)" by (metis power_Suc)
    also have "\<dots> \<le> 10 * (n div 10)" using ih by simp
    also have "\<dots> \<le> n" by simp
    finally show ?thesis by (simp add: e)
  qed
qed

lemma dec_digits_within_limit: "n < 10 ^ k \<Longrightarrow> 0 < k \<Longrightarrow> length (dec_digits n) \<le> k"
proof (rule ccontr)
  assume h: "n < 10 ^ k" "0 < k" "\<not> length (dec_digits n) \<le> k"
  then have "k \<le> length (dec_digits n) - 1" by simp
  then have a: "(10::nat) ^ k \<le> 10 ^ (length (dec_digits n) - 1)"
    by (intro power_increasing) simp_all
  have "n \<noteq> 0"
  proof
    assume "n = 0"
    then have "dec_digits n = [char_of (0x30 + n)]" by (subst dec_digits.simps) simp
    with h show False by simp
  qed
  then have b: "10 ^ (length (dec_digits n) - 1) \<le> n" by (rule dec_digits_lower)
  from a b h(1) show False by linarith
qed

lemma dec_digits_beyond_limit: "10 ^ k \<le> n \<Longrightarrow> k < length (dec_digits n)"
proof (rule ccontr)
  assume h: "10 ^ k \<le> n" "\<not> k < length (dec_digits n)"
  then have a: "(10::nat) ^ length (dec_digits n) \<le> 10 ^ k"
    by (intro power_increasing) simp_all
  from a dec_digits_upper [of n] h(1) show False by linarith
qed

lemma py_nat_dec_digits:
  assumes "length (dec_digits n) \<le> int_max_str_digits"
  shows "py_nat (U (dec_digits n)) = Some n"
proof -
  obtain k :: nat and cs where k: "k < 10" "dec_digits n = char_of (0x30 + k) # cs"
    using dec_digits_hd by blast
  then have u: "U (dec_digits n) = (0x30 + k) # U cs" by (simp add: U_def)
  have "more_digits 0 0 (U (dec_digits n) @ [])
      = more_digits (0 + length (dec_digits n)) (0 * 10 ^ length (dec_digits n) + n) []"
    by (rule more_digits_dec_digits)
  then have "more_digits 0 0 ((0x30 + k) # U cs) = Some (length (dec_digits n), n, [])"
    by (simp only: u append_Nil2 more_digits.simps(1)) simp
  then have m: "more_digits 1 k (U cs) = Some (length (dec_digits n), n, [])"
    by (simp only: more_digits_digit [OF k(1)]) simp
  have d: "to_decimal (0x30 + k) = Some k"
    using to_decimal_ascii [of "0x30 + k"] k(1) by simp
  show ?thesis
    using assms
    by (simp only: py_nat_def u list.case d option.case m prod.case list.pred_inject(1)) simp
qed

lemma nat_abs_less_power: "\<bar>i\<bar> < 10 ^ k \<Longrightarrow> nat \<bar>i\<bar> < 10 ^ k"
  by (simp add: nat_less_iff)

lemma nat_abs_ge_power: "10 ^ k \<le> \<bar>i\<bar> \<Longrightarrow> 10 ^ k \<le> nat \<bar>i\<bar>"
  by (simp add: le_nat_iff)

lemma format_d_within:
  assumes "\<bar>i\<bar> < 10 ^ int_max_str_digits"
  shows "format_d i = Inr (digits_text i)" and "length (dec_digits (nat \<bar>i\<bar>)) \<le> int_max_str_digits"
proof -
  have "nat \<bar>i\<bar> < 10 ^ int_max_str_digits" using assms by (rule nat_abs_less_power)
  moreover have "0 < int_max_str_digits" by (simp add: int_max_str_digits_def)
  ultimately show l: "length (dec_digits (nat \<bar>i\<bar>)) \<le> int_max_str_digits"
    by (rule dec_digits_within_limit)
  then show "format_d i = Inr (digits_text i)"
    by (simp add: format_d_def digits_text_def)
qed

lemma format_d_beyond:
  assumes "10 ^ int_max_str_digits \<le> \<bar>i\<bar>"
  shows "format_d i = Inl ValueError_int_max_str_digits"
proof -
  have "10 ^ int_max_str_digits \<le> nat \<bar>i\<bar>" using assms by (rule nat_abs_ge_power)
  then have "int_max_str_digits < length (dec_digits (nat \<bar>i\<bar>))" by (rule dec_digits_beyond_limit)
  then show ?thesis by (simp add: format_d_def)
qed

lemma py_int_digits_text:
  assumes "length (dec_digits (nat \<bar>n\<bar>)) \<le> int_max_str_digits"
  shows "py_int (U (digits_text n)) = Some n"
proof (cases "n < 0")
  case True
  then have "U (digits_text n) = 0x2D # U (dec_digits (nat (- n)))"
    by (simp add: digits_text_def U_def)
  moreover have "nat \<bar>n\<bar> = nat (- n)" using True by simp
  ultimately show ?thesis
    using True assms by (simp add: py_int_def int_blank_def py_nat_dec_digits)
next
  case False
  obtain k :: nat and cs where k: "k < 10" "dec_digits (nat n) = char_of (0x30 + k) # cs"
    using dec_digits_hd by blast
  then have u: "U (dec_digits (nat n)) = (0x30 + k) # U cs" by (simp add: U_def)
  have "py_int ((0x30 + k) # U cs) = map_option int (py_nat ((0x30 + k) # U cs))"
    using k(1) by (simp add: py_int_def int_blank_def)
  then have "py_int (U (dec_digits (nat n))) = map_option int (py_nat (U (dec_digits (nat n))))"
    by (simp only: u)
  moreover have "nat \<bar>n\<bar> = nat n" using False by simp
  ultimately show ?thesis using False assms by (simp add: digits_text_def py_nat_dec_digits)
qed

lemma takeWhile_stop: "\<not> P y \<Longrightarrow> takeWhile P (xs @ y # ys) = takeWhile P xs"
  by (induction xs) auto

lemma dropWhile_stop: "\<not> P y \<Longrightarrow> dropWhile P (xs @ y # ys) = dropWhile P xs @ y # ys"
  by (induction xs) auto

lemma split1_absent: "c \<notin> set xs \<Longrightarrow> split1 c (xs @ c # ys) = (xs, ys)"
  by (induction xs) (auto simp: split1_def)

lemma split1_none: "c \<notin> set xs \<Longrightarrow> split1 c xs = (xs, [])"
  by (induction xs) (auto simp: split1_def)

lemma split_scheme_no:
  "\<not> list_all scheme_char (take (length (takeWhile (\<lambda>c. c \<noteq> CHR '':'') w)) w)
     \<Longrightarrow> split_scheme w = ([], w)"
  by (simp add: split_scheme_def Let_def)

lemma split_scheme_append:
  assumes "F = CHR ''#'' # f"
  shows "split_scheme (a @ F) = (fst (split_scheme a), snd (split_scheme a) @ F)"
proof (cases "CHR '':'' \<in> set a")
  case True
  then have t: "takeWhile (\<lambda>c. c \<noteq> CHR '':'') (a @ F) = takeWhile (\<lambda>c. c \<noteq> CHR '':'') a"
    by (simp add: takeWhile_append1)
  have l: "length (takeWhile (\<lambda>c. c \<noteq> CHR '':'') a) < length a"
    using True by (induction a) auto
  then have "a \<noteq> []" by auto
  then have t1: "take 1 (a @ F) = take 1 a" by (cases a) auto
  show ?thesis
    using True l by (simp add: split_scheme_def t t1 Let_def)
next
  case False
  define w where "w = a @ F"
  from False have t: "takeWhile (\<lambda>c. c \<noteq> CHR '':'') w
      = a @ CHR ''#'' # takeWhile (\<lambda>c. c \<noteq> CHR '':'') f"
    unfolding w_def assms by (induction a) auto
  have "\<not> scheme_char CHR ''#''"
    by (simp add: scheme_char_def ascii_alpha_def ascii_digit_def in_range_def)
  then have "\<not> list_all scheme_char (takeWhile (\<lambda>c. c \<noteq> CHR '':'') w)"
    by (simp add: t)
  then have "\<not> list_all scheme_char (take (length (takeWhile (\<lambda>c. c \<noteq> CHR '':'') w)) w)"
    by (metis takeWhile_eq_take)
  then have "split_scheme w = ([], w)" by (rule split_scheme_no)
  moreover have "split_scheme a = ([], a)"
    using False by (simp add: split_scheme_def Let_def)
  ultimately show ?thesis by (simp add: w_def)
qed

lemma split_scheme_set: "set (snd (split_scheme a)) \<subseteq> set a"
  by (auto simp: split_scheme_def Let_def dest: in_set_dropD)

lemma netloc_append:
  assumes "F = CHR ''#'' # f"
  shows "(if take 2 (r @ F) = ''//'' then splitnetloc (r @ F) else ('''', r @ F))
       = (fst (if take 2 r = ''//'' then splitnetloc r else ('''', r)),
          snd (if take 2 r = ''//'' then splitnetloc r else ('''', r)) @ F)"
proof (cases "take 2 r = ''//''")
  case True
  then obtain t where r: "r = CHR ''/'' # CHR ''/'' # t"
    by (cases r; cases "tl r") auto
  show ?thesis
    by (simp add: r assms splitnetloc_def takeWhile_stop dropWhile_stop netloc_delim_def)
next
  case False
  then have "take 2 (r @ F) \<noteq> ''//''"
    by (cases r; cases "tl r") (auto simp: assms)
  with False show ?thesis by simp
qed

lemma netloc_rest_set:
  "set (snd (if take 2 r = ''//'' then splitnetloc r else ('''', r))) \<subseteq> set r"
  by (auto simp: splitnetloc_def dest: set_dropWhileD in_set_dropD)

lemma urlsplit_append_fragment:
  assumes u: "CHR ''#'' \<notin> set u"
    and f: "\<forall>c \<in> set f. \<not> unsafe_url_byte c"
  shows "urlsplit ipv6 (u @ CHR ''#'' # f) =
           (case urlsplit ipv6 u of
              Inl e \<Rightarrow> Inl e
            | Inr (s, nl, p, q, fr) \<Rightarrow> Inr (s, nl, p, q, f))"
proof -
  define F where "F = CHR ''#'' # f"
  define a where "a = filter (\<lambda>c. \<not> unsafe_url_byte c) (dropWhile C0_control_or_space u)"
  define r where "r = snd (split_scheme a)"
  define t where "t = snd (if take 2 r = ''//'' then splitnetloc r else ('''', r))"
  define nl where "nl = fst (if take 2 r = ''//'' then splitnetloc r else ('''', r))"
  have ff: "filter (\<lambda>c. \<not> unsafe_url_byte c) f = f"
    using f by (induction f) auto
  have "\<not> unsafe_url_byte CHR ''#''" by (simp add: unsafe_url_byte_def)
  then have F: "filter (\<lambda>c. \<not> unsafe_url_byte c) F = F"
    using ff by (simp_all add: F_def)
  have "\<not> C0_control_or_space CHR ''#''" by (simp add: C0_control_or_space_def)
  then have "dropWhile C0_control_or_space (u @ F) = dropWhile C0_control_or_space u @ F"
    unfolding F_def by (rule dropWhile_stop)
  then have pre: "filter (\<lambda>c. \<not> unsafe_url_byte c) (dropWhile C0_control_or_space (u @ F)) = a @ F"
    by (simp add: a_def F)
  have "set a \<subseteq> set u" by (auto simp: a_def dest: set_dropWhileD)
  moreover have "set r \<subseteq> set a" unfolding r_def by (rule split_scheme_set)
  moreover have "set t \<subseteq> set r" unfolding t_def by (rule netloc_rest_set)
  ultimately have t: "CHR ''#'' \<notin> set t" using u by blast
  have s1: "split_scheme (a @ F) = (fst (split_scheme a), r @ F)"
    unfolding r_def by (rule split_scheme_append [OF F_def])
  have s2: "(if take 2 (r @ F) = ''//'' then splitnetloc (r @ F) else ('''', r @ F)) = (nl, t @ F)"
    unfolding nl_def t_def by (rule netloc_append [OF F_def])
  have s3: "split1 CHR ''#'' (t @ F) = (t, f)"
    unfolding F_def by (rule split1_absent [OF t])
  have L: "urlsplit ipv6 (u @ F) =
      (let (url5, query) = (if CHR ''?'' \<in> set t then split1 CHR ''?'' t else (t, ''''))
       in if (CHR ''['' \<in> set nl \<and> CHR '']'' \<notin> set nl) \<or> (CHR '']'' \<in> set nl \<and> CHR ''['' \<notin> set nl)
          then Inl ValueError_invalid_IPv6_URL
          else if CHR ''['' \<in> set nl \<and> CHR '']'' \<in> set nl
               \<and> \<not> check_bracketed_host ipv6 (fst (split1 CHR '']'' (snd (split1 CHR ''['' nl))))
          then Inl ValueError_invalid_bracketed_host
          else Inr (fst (split_scheme a), nl, url5, query, f))"
    unfolding urlsplit_def pre Let_def s1 prod.case s2 s3
    by (simp add: F_def)
  have R: "urlsplit ipv6 u =
      (let (url5, query) = (if CHR ''?'' \<in> set t then split1 CHR ''?'' t else (t, ''''))
       in if (CHR ''['' \<in> set nl \<and> CHR '']'' \<notin> set nl) \<or> (CHR '']'' \<in> set nl \<and> CHR ''['' \<notin> set nl)
          then Inl ValueError_invalid_IPv6_URL
          else if CHR ''['' \<in> set nl \<and> CHR '']'' \<in> set nl
               \<and> \<not> check_bracketed_host ipv6 (fst (split1 CHR '']'' (snd (split1 CHR ''['' nl))))
          then Inl ValueError_invalid_bracketed_host
          else Inr (fst (split_scheme a), nl, url5, query, ''''))"
    unfolding urlsplit_def a_def [symmetric] Let_def
    using t by (simp add: r_def [symmetric] t_def [symmetric] nl_def [symmetric] split_beta)
  show ?thesis
    unfolding F_def [symmetric] L R by (simp add: Let_def split_beta)
qed

lemma dec_digits_chars: "c \<in> set (dec_digits n) \<Longrightarrow> ascii_digit c"
proof (induction n rule: dec_digits.induct)
  case (1 n)
  have d: "ascii_digit (char_of (0x30 + k))" if "k < 10" for k :: nat
    using that by (simp add: ascii_digit_def in_range_def)
  show ?case
  proof (cases "n < 10")
    case True
    then have "dec_digits n = [char_of (0x30 + n)]" by (subst dec_digits.simps) simp
    with "1.prems" True d show ?thesis by simp
  next
    case False
    then have "dec_digits n = dec_digits (n div 10) @ [char_of (0x30 + n mod 10)]"
      by (subst dec_digits.simps) simp
    with "1.prems" have "c \<in> set (dec_digits (n div 10)) \<or> c = char_of (0x30 + n mod 10)"
      by auto
    then show ?thesis using "1.IH" [OF False] d [of "n mod 10"] by auto
  qed
qed

lemma dec_digits_nonempty: "dec_digits n \<noteq> []"
  using dec_digits_hd [of n] by auto

lemma digits_text_chars: "c \<in> set (digits_text n) \<Longrightarrow> c = CHR ''-'' \<or> ascii_digit c"
  by (auto simp: digits_text_def dest: dec_digits_chars split: if_splits)

lemma digits_text_nonempty: "digits_text n \<noteq> []"
  by (simp add: digits_text_def dec_digits_nonempty)

lemma digits_text_avoids:
  assumes "\<not> ascii_digit c" "c \<noteq> CHR ''-''"
  shows "c \<notin> set (digits_text n)"
  using assms digits_text_chars by blast

lemma split_on_absent: "c \<notin> set xs \<Longrightarrow> split_on c xs = [xs]"
  by (induction xs) auto

lemma parse_qsl_part: "parse_qsl (''part='' @ digits_text n) = [(U ''part'', U (digits_text n))]"
proof -
  have amp: "CHR ''&'' \<notin> set (''part='' @ digits_text n)"
    using digits_text_avoids [of "CHR ''&''" n] by (simp add: ascii_digit_def in_range_def)
  have plus: "CHR ''+'' \<notin> set (digits_text n)"
    by (rule digits_text_avoids) (simp_all add: ascii_digit_def in_range_def)
  have pct: "CHR ''%'' \<notin> set (digits_text n)"
    by (rule digits_text_avoids) (simp_all add: ascii_digit_def in_range_def)
  have m: "map (\<lambda>c. if c = CHR ''+'' then CHR '' '' else c) (digits_text n) = digits_text n"
    using plus by (intro map_idI) auto
  have v: "unquote_plus (digits_text n) = U (digits_text n)"
    by (simp add: unquote_plus_def m unquote_def pct)
  have k: "unquote_plus ''part'' = U ''part''"
    by (simp add: unquote_plus_def unquote_def)
  have s: "split1 CHR ''='' (''part='' @ digits_text n) = (''part'', digits_text n)"
    by (simp add: split1_def)
  show ?thesis
    unfolding parse_qsl_def split_on_absent [OF amp]
    by (simp only: s prod.case Let_def list.map concat.simps v k) (simp add: digits_text_nonempty)
qed

text \<open>
  Claim C1, as the code has it.  For a locator \<open>u\<close> without \<^verbatim>\<open>#\<close> and an integer \<open>n\<close> of at most
  4300 digits, \<^verbatim>\<open>mk_part_uri(u, n)\<close> returns a locator, and reading its part gives \<open>n\<close> back
  whenever \<^verbatim>\<open>urlparse\<close> accepts \<open>u\<close> and raises the \<^verbatim>\<open>ValueError\<close> of \<^verbatim>\<open>urlparse\<close> otherwise.
  For an integer of more digits \<^verbatim>\<open>mk_part_uri\<close> itself raises \<^verbatim>\<open>ValueError\<close>.
\<close>

theorem part_round_trip:
  "(CHR ''#'' \<notin> set u \<longrightarrow> \<bar>n\<bar> < 10 ^ int_max_str_digits \<longrightarrow>
      (\<exists>locator. mk_part_uri u n = Inr locator
         \<and> get_part_from_uri ipv6 locator =
             (case urlparse ipv6 u of
                Inl e \<Rightarrow> Inl e
              | Inr components \<Rightarrow> Inr (Some (PartInt n)))))
   \<and> (10 ^ int_max_str_digits \<le> \<bar>n\<bar> \<longrightarrow> mk_part_uri u n = Inl ValueError_int_max_str_digits)"
proof (intro conjI impI)
  assume u: "CHR ''#'' \<notin> set u" and n: "\<bar>n\<bar> < 10 ^ int_max_str_digits"
  define f where "f = ''part='' @ digits_text n"
  have "CHR 0x09 \<notin> set (digits_text n)" "CHR 0x0D \<notin> set (digits_text n)"
      "CHR 0x0A \<notin> set (digits_text n)"
    by (rule digits_text_avoids; simp add: ascii_digit_def in_range_def)+
  then have b: "\<forall>c \<in> set f. \<not> unsafe_url_byte c"
    by (auto simp: f_def unsafe_url_byte_def)
  have m: "mk_part_uri u n = Inr (u @ CHR ''#'' # f)"
    by (simp add: mk_part_uri_def f_def format_d_within(1) [OF n])
  have "parse_qsl f = [(U ''part'', U (digits_text n))]"
    unfolding f_def by (rule parse_qsl_part)
  then have q: "maybe_int (dict_get (parse_qsl f) (U ''part'')) = Some (PartInt n)"
    by (simp add: dict_get_def maybe_int_def py_int_digits_text [OF format_d_within(2) [OF n]])
  have "get_part_from_uri ipv6 (u @ CHR ''#'' # f) =
      (case urlparse ipv6 u of
         Inl e \<Rightarrow> Inl e
       | Inr components \<Rightarrow> Inr (Some (PartInt n)))"
    unfolding get_part_from_uri_def urlparse_def urlsplit_append_fragment [OF u b]
    by (auto simp: q Let_def split_beta split: sum.splits prod.splits)
  with m show "\<exists>locator. mk_part_uri u n = Inr locator
         \<and> get_part_from_uri ipv6 locator =
             (case urlparse ipv6 u of
                Inl e \<Rightarrow> Inl e
              | Inr components \<Rightarrow> Inr (Some (PartInt n)))"
    by blast
next
  assume "10 ^ int_max_str_digits \<le> \<bar>n\<bar>"
  then show "mk_part_uri u n = Inl ValueError_int_max_str_digits"
    by (simp add: mk_part_uri_def format_d_beyond)
qed

lemmas url_defs = urlparse_def urlsplit_def split_scheme_def splitnetloc_def split1_def
  C0_control_or_space_def unsafe_url_byte_def scheme_char_def ascii_alpha_def ascii_digit_def
  in_range_def ascii_lower_def netloc_delim_def uses_params_def Let_def

lemmas unquote_defs = parse_qsl_def unquote_plus_def unquote_def U_def is_ascii_def hexdig_def
  hexval_def cont_byte_def second_byte_ok_def dict_get_def split1_def

lemmas int_defs = maybe_int_def py_int_def py_nat_def int_blank_def to_decimal_def
  decimal_zeros_def int_max_str_digits_def

lemmas format_defs = mk_part_uri_def format_d_def int_max_str_digits_def dec_digits.simps
  char_of_eq_iff

lemma small_within_limit: "\<bar>n\<bar> < 10 \<Longrightarrow> \<bar>n :: int\<bar> < 10 ^ int_max_str_digits"
proof -
  assume "\<bar>n\<bar> < 10"
  moreover have "(10::int) ^ 1 \<le> 10 ^ int_max_str_digits"
    by (rule power_increasing) (simp_all add: int_max_str_digits_def)
  ultimately show ?thesis by simp
qed

text \<open>
  Claim C1 as stated fails at \<^verbatim>\<open>u = 'http://[abc'\<close>, which has no fragment, and \<^verbatim>\<open>n = 1\<close>:
  \<^verbatim>\<open>urlparse\<close> raises \<^verbatim>\<open>ValueError('Invalid IPv6 URL')\<close> on the part locator, and
  \<^verbatim>\<open>get_part_from_uri\<close> does not catch it.
\<close>

theorem part_round_trip_unbalanced_bracket:
  "CHR ''#'' \<notin> set ''http://[abc'' \<and> \<bar>1 :: int\<bar> < 10 ^ int_max_str_digits
   \<and> mk_part_uri ''http://[abc'' 1 = Inr ''http://[abc#part=1''
   \<and> get_part_from_uri no_ipv6 ''http://[abc#part=1'' = Inl ValueError_invalid_IPv6_URL"
proof -
  have "\<bar>1 :: int\<bar> < 10 ^ int_max_str_digits" by (rule small_within_limit) simp
  moreover have "mk_part_uri ''http://[abc'' 1 = Inr ''http://[abc#part=1''"
    by (simp add: format_defs)
  moreover have "get_part_from_uri no_ipv6 ''http://[abc#part=1'' = Inl ValueError_invalid_IPv6_URL"
    by (simp add: get_part_from_uri_def url_defs)
  ultimately show ?thesis by simp
qed

text \<open>
  Claim C1 at \<^verbatim>\<open>mk_part_uri('file:///tmp/x.tif', 3)\<close>, at a negative index, and at the first
  integer of 4301 digits.
\<close>

theorem part_round_trip_witness:
  "mk_part_uri ''file:///tmp/x.tif'' 3 = Inr ''file:///tmp/x.tif#part=3''
   \<and> get_part_from_uri no_ipv6 ''file:///tmp/x.tif#part=3'' = Inr (Some (PartInt 3))
   \<and> mk_part_uri ''s3://bucket/key'' (- 7) = Inr ''s3://bucket/key#part=-7''
   \<and> get_part_from_uri no_ipv6 ''s3://bucket/key#part=-7'' = Inr (Some (PartInt (- 7)))
   \<and> mk_part_uri ''s3://bucket/key'' (10 ^ int_max_str_digits) = Inl ValueError_int_max_str_digits"
proof -
  have a: "CHR ''#'' \<notin> set ''file:///tmp/x.tif''" by simp
  have b: "CHR ''#'' \<notin> set ''s3://bucket/key''" by simp
  have la: "\<bar>3 :: int\<bar> < 10 ^ int_max_str_digits" by (rule small_within_limit) simp
  have lb: "\<bar>- 7 :: int\<bar> < 10 ^ int_max_str_digits" by (rule small_within_limit) simp
  have lc: "(10 :: int) ^ int_max_str_digits \<le> \<bar>10 ^ int_max_str_digits\<bar>" by simp
  have c: "urlparse no_ipv6 ''file:///tmp/x.tif'' =
    Inr \<lparr>scheme = ''file'', netloc = '''', path = ''/tmp/x.tif'', params = '''', query = '''',
      fragment = ''''\<rparr>"
    by (simp add: url_defs)
  have d: "urlparse no_ipv6 ''s3://bucket/key'' =
    Inr \<lparr>scheme = ''s3'', netloc = ''bucket'', path = ''/key'', params = '''', query = '''',
      fragment = ''''\<rparr>"
    by (simp add: url_defs)
  have ma: "mk_part_uri ''file:///tmp/x.tif'' 3 = Inr ''file:///tmp/x.tif#part=3''"
    by (simp add: format_defs)
  have mb: "mk_part_uri ''s3://bucket/key'' (- 7) = Inr ''s3://bucket/key#part=-7''"
    by (simp add: format_defs)
  note ta = part_round_trip [of "''file:///tmp/x.tif''" 3 no_ipv6]
  note tb = part_round_trip [of "''s3://bucket/key''" "- 7" no_ipv6]
  note tc = part_round_trip [of "''s3://bucket/key''" "10 ^ int_max_str_digits" no_ipv6]
  from ta a la obtain l where "mk_part_uri ''file:///tmp/x.tif'' 3 = Inr l"
    "get_part_from_uri no_ipv6 l = (case urlparse no_ipv6 ''file:///tmp/x.tif'' of
        Inl e \<Rightarrow> Inl e | Inr components \<Rightarrow> Inr (Some (PartInt 3)))" by blast
  then have 1: "get_part_from_uri no_ipv6 ''file:///tmp/x.tif#part=3'' = Inr (Some (PartInt 3))"
    by (simp add: ma c)
  from tb b lb obtain l' where "mk_part_uri ''s3://bucket/key'' (- 7) = Inr l'"
    "get_part_from_uri no_ipv6 l' = (case urlparse no_ipv6 ''s3://bucket/key'' of
        Inl e \<Rightarrow> Inl e | Inr components \<Rightarrow> Inr (Some (PartInt (- 7))))" by blast
  then have 2: "get_part_from_uri no_ipv6 ''s3://bucket/key#part=-7'' = Inr (Some (PartInt (- 7)))"
    by (simp add: mb d)
  from tc lc have 3: "mk_part_uri ''s3://bucket/key'' (10 ^ int_max_str_digits)
      = Inl ValueError_int_max_str_digits" by blast
  from ma 1 mb 2 3 show ?thesis by blast
qed

text \<open>What \<^verbatim>\<open>urlparse\<close> raises, \<^verbatim>\<open>get_part_from_uri\<close> raises.\<close>

lemma get_part_from_uri_raises:
  "urlparse ipv6 u = Inl e \<Longrightarrow> get_part_from_uri ipv6 u = Inl e"
  by (simp add: get_part_from_uri_def)

lemma parse_qsl_part_plain:
  assumes "w \<noteq> []" "\<forall>x \<in> set w. plain_part_char x"
  shows "parse_qsl (''part='' @ w) = [(U ''part'', U w)]"
proof -
  have amp: "CHR ''&'' \<notin> set (''part='' @ w)"
    using assms(2) by (auto simp: plain_part_char_def)
  have m: "map (\<lambda>c. if c = CHR ''+'' then CHR '' '' else c) w = w"
    using assms(2) by (intro map_idI) (auto simp: plain_part_char_def)
  have pct: "CHR ''%'' \<notin> set w"
    using assms(2) by (auto simp: plain_part_char_def)
  have v: "unquote_plus w = U w"
    by (simp add: unquote_plus_def m unquote_def pct)
  have k: "unquote_plus ''part'' = U ''part''"
    by (simp add: unquote_plus_def unquote_def)
  have s: "split1 CHR ''='' (''part='' @ w) = (''part'', w)"
    by (simp add: split1_def)
  show ?thesis
    unfolding parse_qsl_def split_on_absent [OF amp]
    by (simp only: s prod.case Let_def list.map concat.simps v k) (simp add: assms(1))
qed

text \<open>
  Claim C5, as the code has it.  When \<^verbatim>\<open>urlparse\<close> accepts the locator and the fragment,
  parsed as a query string, gives \<^verbatim>\<open>part\<close> a value that \<^verbatim>\<open>int\<close> rejects, that value is
  returned.  For a fragment \<^verbatim>\<open>part=w\<close> after a locator without \<^verbatim>\<open>#\<close>, with \<open>w\<close> not empty and
  free of \<^verbatim>\<open>&\<close>, \<^verbatim>\<open>+\<close>, \<^verbatim>\<open>%\<close>, tab, carriage return and line feed, the value is \<open>w\<close> itself.
\<close>

theorem part_string_value:
  "(urlparse ipv6 u = Inr c \<longrightarrow> dict_get (parse_qsl (fragment c)) (U ''part'') = Some v
      \<longrightarrow> py_int v = None \<longrightarrow> get_part_from_uri ipv6 u = Inr (Some (PartStr v)))
   \<and> (CHR ''#'' \<notin> set b \<longrightarrow> urlparse ipv6 b = Inr c' \<longrightarrow> w \<noteq> []
      \<longrightarrow> (\<forall>x \<in> set w. plain_part_char x) \<longrightarrow> py_int (U w) = None
      \<longrightarrow> get_part_from_uri ipv6 (b @ ''#part='' @ w) = Inr (Some (PartStr (U w))))"
proof (intro conjI impI)
  assume "urlparse ipv6 u = Inr c" "dict_get (parse_qsl (fragment c)) (U ''part'') = Some v"
    "py_int v = None"
  then show "get_part_from_uri ipv6 u = Inr (Some (PartStr v))"
    by (simp add: get_part_from_uri_def maybe_int_def)
next
  assume h: "CHR ''#'' \<notin> set b" "urlparse ipv6 b = Inr c'" "w \<noteq> []"
    "\<forall>x \<in> set w. plain_part_char x" "py_int (U w) = None"
  define f where "f = ''part='' @ w"
  have s: "\<forall>x \<in> set f. \<not> unsafe_url_byte x"
    using h(4) by (auto simp: f_def plain_part_char_def unsafe_url_byte_def)
  have m: "b @ ''#part='' @ w = b @ CHR ''#'' # f" by (simp add: f_def)
  have "parse_qsl f = [(U ''part'', U w)]"
    unfolding f_def using h(3,4) by (rule parse_qsl_part_plain)
  then have q: "maybe_int (dict_get (parse_qsl f) (U ''part'')) = Some (PartStr (U w))"
    using h(5) by (simp add: dict_get_def maybe_int_def)
  from h(2) obtain t where t: "urlsplit ipv6 b = Inr t"
    by (auto simp: urlparse_def split: sum.splits)
  show "get_part_from_uri ipv6 (b @ ''#part='' @ w) = Inr (Some (PartStr (U w)))"
    unfolding get_part_from_uri_def urlparse_def m urlsplit_append_fragment [OF h(1) s] t
    by (auto simp: q Let_def split_beta split: prod.splits)
qed

text \<open>
  Claim C5 as stated fails at \<^verbatim>\<open>'http://[abc#part=x'\<close>: the fragment is \<^verbatim>\<open>part=x\<close> and \<^verbatim>\<open>x\<close>
  is no integer, yet the call raises \<^verbatim>\<open>ValueError('Invalid IPv6 URL')\<close>.
\<close>

theorem part_string_value_unbalanced_bracket:
  "py_int (U ''x'') = None
   \<and> get_part_from_uri no_ipv6 ''http://[abc#part=x'' = Inl ValueError_invalid_IPv6_URL"
  by (simp add: get_part_from_uri_def url_defs int_defs U_def)

text \<open>
  Claim C5 at \<^verbatim>\<open>'s3://bucket/key#part=a+b'\<close>, where the value returned is the decoded
  \<^verbatim>\<open>'a b'\<close>, and at \<^verbatim>\<open>'s3://bucket/key#part=red'\<close>.
\<close>

theorem part_string_value_witness:
  "get_part_from_uri no_ipv6 ''s3://bucket/key#part=a+b'' = Inr (Some (PartStr (U ''a b'')))
   \<and> get_part_from_uri no_ipv6 (''s3://bucket/key'' @ ''#part='' @ ''red'')
       = Inr (Some (PartStr (U ''red'')))"
proof -
  let ?c = "\<lparr>scheme = ''s3'', netloc = ''bucket'', path = ''/key'', params = '''', query = '''',
      fragment = ''part=a+b''\<rparr>"
  let ?c' = "\<lparr>scheme = ''s3'', netloc = ''bucket'', path = ''/key'', params = '''', query = '''',
      fragment = ''''\<rparr>"
  have 1: "urlparse no_ipv6 ''s3://bucket/key#part=a+b'' = Inr ?c" by (simp add: url_defs)
  have 2: "dict_get (parse_qsl (fragment ?c)) (U ''part'') = Some (U ''a b'')"
    by (simp add: unquote_defs)
  have 3: "py_int (U ''a b'') = None" by (simp add: int_defs U_def)
  have 4: "CHR ''#'' \<notin> set ''s3://bucket/key''" by simp
  have 5: "urlparse no_ipv6 ''s3://bucket/key'' = Inr ?c'" by (simp add: url_defs)
  have 6: "''red'' \<noteq> []" by simp
  have 7: "\<forall>x \<in> set ''red''. plain_part_char x"
    by (simp add: plain_part_char_def unsafe_url_byte_def)
  have 8: "py_int (U ''red'') = None" by (simp add: int_defs U_def)
  note t = part_string_value [of no_ipv6 "''s3://bucket/key#part=a+b''" ?c "U ''a b''"
      "''s3://bucket/key''" ?c' "''red''"]
  from t 1 2 3 have "get_part_from_uri no_ipv6 ''s3://bucket/key#part=a+b''
      = Inr (Some (PartStr (U ''a b'')))" by blast
  moreover from t 4 5 6 7 8 have "get_part_from_uri no_ipv6 (''s3://bucket/key'' @ ''#part='' @ ''red'')
      = Inr (Some (PartStr (U ''red'')))" by blast
  ultimately show ?thesis by blast
qed

section \<open>\<^verbatim>\<open>uri_to_local_path\<close>\<close>

text \<open>
  Claim C8: for \<^verbatim>\<open>None\<close> and for the empty text \<^verbatim>\<open>uri_to_local_path\<close> returns \<^verbatim>\<open>None\<close>; nothing is
  parsed and nothing is raised, on any host.
\<close>

theorem uri_to_local_path_empty:
  "uri_to_local_path ipv6 os_name None = Inr None
   \<and> uri_to_local_path ipv6 os_name (Some '''') = Inr None"
  by (simp add: uri_to_local_path_def)

text \<open>
  Claim C4, as the code has it.  On a locator that is not empty, the \<^verbatim>\<open>ValueError\<close> of
  \<^verbatim>\<open>urlparse\<close> comes first.  When \<^verbatim>\<open>urlparse\<close> accepts the locator: a scheme other than
  \<^verbatim>\<open>file\<close> raises; on a host other than Windows an authority raises and the result is
  otherwise the path of the decoded text; on Windows \<^verbatim>\<open>url2pathname\<close> can raise, and the
  result is otherwise built from \<^verbatim>\<open>//\<close>, the authority and the decoded path, or from the
  decoded path alone when there is no authority.
\<close>

theorem uri_to_local_path_cases:
  assumes "uri \<noteq> []"
  shows "uri_to_local_path ipv6 os_name (Some uri) =
     (case urlparse ipv6 uri of
        Inl e \<Rightarrow> Inl e
      | Inr c \<Rightarrow>
          if scheme c \<noteq> ''file'' then Inl (ValueError_only_file_URIs (scheme c))
          else if os_name \<noteq> ''nt''
          then (if netloc c \<noteq> [] then Inl ValueError_netloc_only_on_Windows
                else Inr (Some (PosixPath (from_parts [unquote (path c)]))))
          else (case nt_url2pathname (path c) of
                  Inl e \<Rightarrow> Inl e
                | Inr p \<Rightarrow>
                    if netloc c \<noteq> [] then Inr (Some (WindowsPath (U ''//'' @ U (netloc c) @ p)))
                    else Inr (Some (WindowsPath p))))"
  using assms
  by (simp add: uri_to_local_path_def url2pathname_def native_Path_def split: sum.splits)

lemmas nt_defs = nt_url2pathname_def ascii_upper_def

text \<open>
  Claim C4 as stated fails at \<^verbatim>\<open>'file://[abc/x'\<close>: the call raises
  \<^verbatim>\<open>ValueError('Invalid IPv6 URL')\<close> from \<^verbatim>\<open>urlparse\<close>, on Windows where the claim has it return
  a path, and elsewhere where the claim has it raise for the authority.
\<close>

theorem uri_to_local_path_unbalanced_bracket:
  "''file://[abc/x'' \<noteq> []
   \<and> uri_to_local_path no_ipv6 ''nt'' (Some ''file://[abc/x'') = Inl ValueError_invalid_IPv6_URL
   \<and> uri_to_local_path no_ipv6 ''posix'' (Some ''file://[abc/x'') = Inl ValueError_invalid_IPv6_URL"
  by (simp add: uri_to_local_path_def url_defs)

text \<open>
  Claim C4 at the docstring's \<^verbatim>\<open>'file:///tmp/something.txt'\<close> and
  \<^verbatim>\<open>'file:///C:/tmp/something.txt'\<close>, at a locator with the scheme \<^verbatim>\<open>http\<close>, and at
  \<^verbatim>\<open>'file://host/share'\<close> on both hosts.
\<close>

theorem uri_to_local_path_cases_witness:
  "uri_to_local_path no_ipv6 ''posix'' (Some ''file:///tmp/something.txt'')
     = Inr (Some (PosixPath (Path (U ''/'') [U ''tmp'', U ''something.txt''])))
   \<and> uri_to_local_path no_ipv6 ''posix'' (Some ''http://example.com/x'')
     = Inl (ValueError_only_file_URIs ''http'')
   \<and> uri_to_local_path no_ipv6 ''posix'' (Some ''file://host/share'')
     = Inl ValueError_netloc_only_on_Windows
   \<and> uri_to_local_path no_ipv6 ''nt'' (Some ''file://host/share'')
     = Inr (Some (WindowsPath (U ''//host'' @ [0x5C] @ U ''share'')))
   \<and> uri_to_local_path no_ipv6 ''nt'' (Some ''file:///C:/tmp/something.txt'')
     = Inr (Some (WindowsPath (U ''C:'' @ [0x5C] @ U ''tmp'' @ [0x5C] @ U ''something.txt'')))"
proof -
  have n: "''file:///tmp/something.txt'' \<noteq> []" "''http://example.com/x'' \<noteq> []"
    "''file://host/share'' \<noteq> []" "''file:///C:/tmp/something.txt'' \<noteq> []" by simp_all
  have p1: "urlparse no_ipv6 ''file:///tmp/something.txt'' =
    Inr \<lparr>scheme = ''file'', netloc = '''', path = ''/tmp/something.txt'', params = '''',
      query = '''', fragment = ''''\<rparr>" by (simp add: url_defs)
  have p2: "urlparse no_ipv6 ''http://example.com/x'' =
    Inr \<lparr>scheme = ''http'', netloc = ''example.com'', path = ''/x'', params = '''',
      query = '''', fragment = ''''\<rparr>" by (simp add: url_defs)
  have p3: "urlparse no_ipv6 ''file://host/share'' =
    Inr \<lparr>scheme = ''file'', netloc = ''host'', path = ''/share'', params = '''',
      query = '''', fragment = ''''\<rparr>" by (simp add: url_defs)
  have p4: "urlparse no_ipv6 ''file:///C:/tmp/something.txt'' =
    Inr \<lparr>scheme = ''file'', netloc = '''', path = ''/C:/tmp/something.txt'', params = '''',
      query = '''', fragment = ''''\<rparr>" by (simp add: url_defs)
  have f1: "from_parts [unquote ''/tmp/something.txt''] = Path (U ''/'') [U ''tmp'', U ''something.txt'']"
    by (simp add: from_parts_def splitroot_def rel_names_def unquote_def U_def)
  have u3: "nt_url2pathname ''/share'' = Inr ([0x5C] @ U ''share'')"
    by (simp add: nt_defs unquote_def U_def)
  have u4: "nt_url2pathname ''/C:/tmp/something.txt''
      = Inr (U ''C:'' @ [0x5C] @ U ''tmp'' @ [0x5C] @ U ''something.txt'')"
    by (simp add: nt_defs unquote_def U_def ascii_alpha_def in_range_def)
  show ?thesis
    using uri_to_local_path_cases [OF n(1), of no_ipv6 "''posix''"]
      uri_to_local_path_cases [OF n(2), of no_ipv6 "''posix''"]
      uri_to_local_path_cases [OF n(3), of no_ipv6 "''posix''"]
      uri_to_local_path_cases [OF n(3), of no_ipv6 "''nt''"]
      uri_to_local_path_cases [OF n(4), of no_ipv6 "''nt''"]
    by (simp add: p1 p2 p3 p4 f1 u3 u4) (simp add: U_def)
qed

section \<open>\<^verbatim>\<open>default_base_dir\<close>\<close>

lemmas path_defs = pathlib_Path_def from_parts_def splitroot_def rel_names_def parts_of_def
  is_absolute_def str_path_def truediv_def absolute_def U_def

text \<open>
  The decision chain of \<^verbatim>\<open>default_base_dir\<close> once the current directory has been resolved to
  \<open>cwd\<close>: \<^verbatim>\<open>PWD\<close> is returned when it is set, absolute and resolves to \<open>cwd\<close>; \<open>cwd\<close> is returned
  when \<^verbatim>\<open>PWD\<close> is unset, not absolute, resolves elsewhere or fails to resolve with
  \<^verbatim>\<open>OSError\<close>; any other exception of the resolution is raised.
\<close>

lemma default_base_dir_chain:
  assumes "resolve rt (pathlib_Path (AStr ''.'')) = Inr cwd"
  shows "default_base_dir rt =
     (case environ_PWD rt of
        None \<Rightarrow> Inr cwd
      | Some t \<Rightarrow>
          if \<not> is_absolute (pathlib_Path (AStr t)) then Inr cwd
          else (case resolve rt (pathlib_Path (AStr t)) of
                  Inr r \<Rightarrow> if r = cwd then Inr (pathlib_Path (AStr t)) else Inr cwd
                | Inl e \<Rightarrow> if e = OSError then Inr cwd else Inl e))"
  using assms
  by (auto simp: default_base_dir_def Let_def split: option.splits sum.splits exn.splits)

lemma default_base_dir_linked:
  "default_base_dir linked_runtime = Inr (Path (U ''/'') [U ''home'', U ''u'', U ''link''])"
  by (simp add: default_base_dir_def linked_runtime_def path_defs)

text \<open>
  Claim C3 at a \<^verbatim>\<open>PWD\<close> that names a loop of symbolic links: \<^verbatim>\<open>pwd.resolve()\<close> raises
  \<^verbatim>\<open>RuntimeError\<close>, which \<^verbatim>\<open>except IOError\<close> does not catch, so \<^verbatim>\<open>default_base_dir\<close> raises where
  the claim and the docstring have it return the current directory.
\<close>

theorem default_base_dir_symlink_loop:
  "default_base_dir loop_runtime = Inl RuntimeError"
  by (simp add: default_base_dir_def loop_runtime_def path_defs)

lemma split_on_nonempty: "split_on c xs \<noteq> []"
  by (induction xs) (auto split: list.splits)

lemma split_on_free: "w \<in> set (split_on c xs) \<Longrightarrow> c \<notin> set w"
proof (induction xs arbitrary: w)
  case Nil
  then show ?case by simp
next
  case (Cons x xs)
  show ?case
  proof (cases "x = c")
    case True
    with Cons show ?thesis by auto
  next
    case False
    obtain v vs where s: "split_on c xs = v # vs"
      using split_on_nonempty [of c xs] by (cases "split_on c xs") auto
    with Cons.prems False have "w = x # v \<or> w \<in> set vs" by auto
    then show ?thesis using Cons.IH s False by auto
  qed
qed

lemma split_on_Cons_other:
  "x \<noteq> c \<Longrightarrow> split_on c (x # xs) = (x # hd (split_on c xs)) # tl (split_on c xs)"
  using split_on_nonempty [of c xs] by (cases "split_on c xs") auto

lemma split_on_append_sep:
  "c \<notin> set w \<Longrightarrow> split_on c (w @ c # xs) = w # split_on c xs"
  by (induction w) (auto simp: split_on_Cons_other)

lemma split_on_join:
  "xs \<noteq> [] \<Longrightarrow> \<forall>x \<in> set xs. c \<notin> set x \<Longrightarrow> split_on c (join_with c xs) = xs"
proof (induction xs rule: join_with.induct)
  case (1 c)
  then show ?case by simp
next
  case (2 c w)
  then show ?case by (simp add: split_on_absent)
next
  case (3 c w v vs)
  then show ?case by (simp add: split_on_append_sep)
qed

lemma U_lits: "U ''/'' = [0x2F]" "U ''//'' = [0x2F, 0x2F]" "U ''///'' = [0x2F, 0x2F, 0x2F]"
  "U ''.'' = [0x2E]" "U ''..'' = [0x2E, 0x2E]"
  by (simp_all add: U_def)

lemma from_parts_single:
  "from_parts [s] =
     (if s = [] then Path [] [] else Path (fst (splitroot s)) (rel_names (snd (splitroot s))))"
  by (simp add: from_parts_def)

lemma rel_names_wf:
  "n \<in> set (rel_names r) \<Longrightarrow> n \<noteq> [] \<and> n \<noteq> U ''.'' \<and> 0x2F \<notin> set n"
  by (auto simp: rel_names_def dest: split_on_free)

lemma wf_from_parts_single: "wf_path (from_parts [s])"
  unfolding wf_path_def from_parts_single
  by (auto simp: splitroot_def Let_def dest: rel_names_wf)

lemma wf_as_path_text: "wf_path (as_path (AStr s))"
  by (simp add: as_path_def pathlib_Path_def wf_from_parts_single)

lemma join_no_leading_slash:
  "good_names ns \<Longrightarrow> take 1 (join_with 0x2F ns) \<noteq> [0x2F]"
proof (induction "0x2F :: nat" ns rule: join_with.induct)
  case 1
  then show ?case by simp
next
  case (2 w)
  then show ?case by (cases w) (auto simp: good_names_def)
next
  case (3 w v vs)
  then show ?case by (cases w) (auto simp: good_names_def)
qed

lemma dropWhile_slashes:
  "take 1 j \<noteq> [0x2F] \<Longrightarrow> dropWhile (\<lambda>c. c = 0x2F) (replicate k (0x2F :: nat) @ j) = j"
  by (induction k) (auto, cases j, auto)

lemma rel_names_join:
  assumes "good_names ns"
  shows "rel_names (join_with 0x2F ns) = ns"
proof (cases "ns = []")
  case True
  then show ?thesis by (simp add: rel_names_def)
next
  case False
  have "\<forall>x \<in> set ns. 0x2F \<notin> set x" using assms by (simp add: good_names_def)
  then have "split_on 0x2F (join_with 0x2F ns) = ns" using False by (intro split_on_join) auto
  moreover have "filter (\<lambda>x. x \<noteq> [] \<and> x \<noteq> U ''.'') ns = ns"
    using assms by (intro filter_True) (auto simp: good_names_def)
  ultimately show ?thesis by (simp add: rel_names_def)
qed

lemma from_parts_rooted:
  assumes "rt = replicate k 0x2F" "k = 1 \<or> k = 2" "good_names ns"
  shows "from_parts [rt @ join_with 0x2F ns] = Path rt ns"
proof -
  let ?j = "join_with 0x2F ns"
  have j: "take 1 ?j \<noteq> [0x2F]" using assms(3) by (rule join_no_leading_slash)
  have d: "dropWhile (\<lambda>c. c = 0x2F) (rt @ ?j) = ?j"
    unfolding assms(1) using j by (rule dropWhile_slashes)
  have t: "take 1 (rt @ ?j) = U ''/''" using assms(1,2) by (auto simp: U_lits)
  have l: "length (rt @ ?j) - length ?j = k" using assms(1) by simp
  have r: "(if k = 2 then U ''//'' else U ''/'') = rt"
    using assms(1,2) by (auto simp: U_lits numeral_2_eq_2)
  have "splitroot (rt @ ?j) = (rt, ?j)"
    unfolding splitroot_def Let_def d t l by (simp add: r if_distrib [of "\<lambda>x. (x, _)", symmetric])
  moreover have "rt @ ?j \<noteq> []" using assms(1,2) by auto
  ultimately show ?thesis
    unfolding from_parts_single by (simp only: if_False fst_conv snd_conv rel_names_join [OF assms(3)])
qed

lemma normal_names_good: "normal_names ns \<Longrightarrow> good_names ns"
  by (simp add: normal_names_def good_names_def)

lemma normpath_step_normal:
  assumes "normal_names acc" "n \<noteq> []" "n \<noteq> U ''.''" "0x2F \<notin> set n"
  shows "normal_names (normpath_step True acc n)"
proof (cases "n = U ''..''")
  case True
  have "acc \<noteq> [] \<Longrightarrow> last acc \<noteq> U ''..''"
    using assms(1) last_in_set [of acc] by (auto simp: normal_names_def)
  moreover have "normal_names (butlast acc)"
    using assms(1) by (auto simp: normal_names_def dest: in_set_butlastD)
  ultimately show ?thesis
    using True assms(1) by (auto simp: normpath_step_def U_lits)
next
  case False
  then show ?thesis
    using assms by (auto simp: normpath_step_def normal_names_def)
qed

lemma foldl_normpath_step_normal:
  "normal_names acc \<Longrightarrow> good_names ns \<Longrightarrow> normal_names (foldl (normpath_step True) acc ns)"
proof (induction ns arbitrary: acc)
  case Nil
  then show ?case by simp
next
  case (Cons n ns)
  then have "normal_names (normpath_step True acc n)"
    by (intro normpath_step_normal) (auto simp: good_names_def)
  moreover have "good_names ns" using Cons.prems(2) by (simp add: good_names_def)
  ultimately show ?case using Cons.IH by simp
qed

lemma initial_slashes_rooted:
  assumes "take 1 j \<noteq> [0x2F]" "k = 1 \<or> k = 2"
  shows "initial_slashes (replicate k 0x2F @ j) = k"
  using assms by (cases j) (auto simp: initial_slashes_def U_lits numeral_2_eq_2)

lemma split_on_rooted:
  "split_on 0x2F (replicate k (0x2F :: nat) @ j) = replicate k [] @ split_on 0x2F j"
  by (induction k) auto

lemma foldl_skip_empty:
  "foldl (normpath_step b) acc (replicate k [] @ xs) = foldl (normpath_step b) acc xs"
  by (induction k) (auto simp: normpath_step_def)

lemma foldl_split_join:
  assumes "good_names ns"
  shows "foldl (normpath_step b) [] (split_on 0x2F (join_with 0x2F ns))
       = foldl (normpath_step b) [] ns"
proof (cases "ns = []")
  case True
  then show ?thesis by (simp add: normpath_step_def)
next
  case False
  have "\<forall>x \<in> set ns. 0x2F \<notin> set x" using assms by (simp add: good_names_def)
  then have "split_on 0x2F (join_with 0x2F ns) = ns" using False by (intro split_on_join) auto
  then show ?thesis by simp
qed

lemma normpath_rooted:
  assumes "rt = replicate k 0x2F" "k = 1 \<or> k = 2" "good_names ns"
  shows "normpath (rt @ join_with 0x2F ns)
       = rt @ join_with 0x2F (foldl (normpath_step True) [] ns)"
proof -
  let ?j = "join_with 0x2F ns"
  have j: "take 1 ?j \<noteq> [0x2F]" using assms(3) by (rule join_no_leading_slash)
  have i: "initial_slashes (rt @ ?j) = k"
    unfolding assms(1) using j assms(2) by (rule initial_slashes_rooted)
  have ne: "rt @ ?j \<noteq> []" "rt \<noteq> []" using assms(1,2) by auto
  have f: "foldl (normpath_step True) [] (split_on 0x2F (rt @ ?j))
      = foldl (normpath_step True) [] ns"
    unfolding assms(1) split_on_rooted foldl_skip_empty using assms(3) by (rule foldl_split_join)
  have k: "0 < k" using assms(2) by auto
  show ?thesis
    unfolding normpath_def i Let_def using ne k by (simp add: f assms(1) [symmetric])
qed

lemma wf_absolute_root:
  assumes "wf_path q" "is_absolute q"
  shows "\<exists>k. root q = replicate k 0x2F \<and> (k = 1 \<or> k = 2)"
proof -
  from assms have "root q = U ''/'' \<or> root q = U ''//''"
    by (auto simp: wf_path_def is_absolute_def)
  then show ?thesis
  proof
    assume "root q = U ''/''"
    then have "root q = replicate 1 0x2F \<and> ((1::nat) = 1 \<or> (1::nat) = 2)" by (simp add: U_lits)
    then show ?thesis by blast
  next
    assume "root q = U ''//''"
    then have "root q = replicate 2 0x2F \<and> ((2::nat) = 1 \<or> (2::nat) = 2)"
      by (simp add: U_lits numeral_2_eq_2)
    then show ?thesis by blast
  qed
qed

lemma norm_absolute:
  assumes "wf_path q" "is_absolute q"
  shows "norm q = Path (root q) (foldl (normpath_step True) [] (names q))"
    and "lexically_normal (norm q)"
proof -
  obtain k where k: "root q = replicate k 0x2F" "k = 1 \<or> k = 2"
    using wf_absolute_root [OF assms] by blast
  have g: "good_names (names q)" using assms(1) by (simp add: wf_path_def good_names_def)
  have ne: "root q @ join_with 0x2F (names q) \<noteq> []" using k by auto
  then have s: "str_path q = root q @ join_with 0x2F (names q)"
    unfolding str_path_def Let_def by (simp only: if_False)
  have n: "normal_names (foldl (normpath_step True) [] (names q))"
    using g by (intro foldl_normpath_step_normal) (simp add: normal_names_def)
  show e: "norm q = Path (root q) (foldl (normpath_step True) [] (names q))"
    unfolding norm_def s normpath_rooted [OF k g]
    using k normal_names_good [OF n] by (rule from_parts_rooted)
  from assms have "root q = U ''/'' \<or> root q = U ''//''"
    by (auto simp: wf_path_def is_absolute_def)
  then show "lexically_normal (norm q)"
    using n by (simp add: e lexically_normal_def normal_names_def)
qed

lemma normpath_step_name:
  "n \<noteq> [] \<Longrightarrow> n \<noteq> U ''.'' \<Longrightarrow> n \<noteq> U ''..'' \<Longrightarrow> normpath_step True acc n = acc @ [n]"
  by (simp add: normpath_step_def)

lemma normpath_step_parent:
  "normal_names acc \<Longrightarrow> normpath_step True acc (U ''..'') = butlast acc"
proof -
  assume a: "normal_names acc"
  have "acc \<noteq> [] \<Longrightarrow> last acc \<noteq> U ''..''"
    using a last_in_set [of acc] by (auto simp: normal_names_def)
  then show ?thesis by (auto simp: normpath_step_def U_lits)
qed

lemma foldl_normpath_step_collapses:
  "normal_names acc \<Longrightarrow> good_names ns \<Longrightarrow>
     collapses\<^sup>*\<^sup>* (acc @ ns) (foldl (normpath_step True) acc ns)"
proof (induction ns arbitrary: acc)
  case Nil
  then show ?case by simp
next
  case (Cons n ns)
  then have n: "n \<noteq> []" "n \<noteq> U ''.''" "0x2F \<notin> set n" and g: "good_names ns"
    by (simp_all add: good_names_def)
  show ?case
  proof (cases "n = U ''..''")
    case False
    have s: "normpath_step True acc n = acc @ [n]" using n False by (simp add: normpath_step_name)
    have "normal_names (acc @ [n])" using Cons.prems(1) n False by (simp add: normal_names_def)
    then have "collapses\<^sup>*\<^sup>* ((acc @ [n]) @ ns) (foldl (normpath_step True) (acc @ [n]) ns)"
      using g by (rule Cons.IH)
    then show ?thesis by (simp add: s)
  next
    case True
    have s: "normpath_step True acc n = butlast acc"
      unfolding True using Cons.prems(1) by (rule normpath_step_parent)
    have b: "normal_names (butlast acc)"
      using Cons.prems(1) by (auto simp: normal_names_def dest: in_set_butlastD)
    have step: "collapses (acc @ n # ns) (butlast acc @ ns)"
    proof (cases acc rule: rev_cases)
      case Nil
      then show ?thesis using \<open>n = U ''..''\<close> by (simp add: collapses.root_parent)
    next
      case (snoc a' x)
      then have "x \<noteq> U ''..''" using Cons.prems(1) by (simp add: normal_names_def)
      then have "collapses (a' @ x # U ''..'' # ns) (a' @ ns)" by (rule collapses.parent)
      then show ?thesis using snoc \<open>n = U ''..''\<close> by simp
    qed
    have "collapses\<^sup>*\<^sup>* (butlast acc @ ns) (foldl (normpath_step True) (butlast acc) ns)"
      using b g by (rule Cons.IH)
    with step have "collapses\<^sup>*\<^sup>* (acc @ n # ns) (foldl (normpath_step True) (butlast acc) ns)"
      by (rule converse_rtranclp_into_rtranclp)
    then show ?thesis by (simp add: s)
  qed
qed

lemma climb_parent: "x \<noteq> U ''..'' \<Longrightarrow> climb e (a @ x # U ''..'' # b) = climb e (a @ b)"
  by (induction a arbitrary: e) auto

lemma climb_collapses: "collapses xs ys \<Longrightarrow> climb [] xs = climb [] ys"
  by (induction rule: collapses.induct) (simp_all add: climb_parent)

lemma climb_rtrancl: "collapses\<^sup>*\<^sup>* xs ys \<Longrightarrow> climb [] xs = climb [] ys"
  by (induction rule: rtranclp_induct) (simp_all add: climb_collapses)

lemma climb_normal: "U ''..'' \<notin> set ns \<Longrightarrow> climb e ns = rev e @ ns"
  by (induction ns arbitrary: e) auto

lemma collapses_normal_form:
  "collapses\<^sup>*\<^sup>* xs ms \<Longrightarrow> U ''..'' \<notin> set ms \<Longrightarrow> ms = climb [] xs"
  using climb_rtrancl [of xs ms] climb_normal [of ms "[]"] by simp

lemma norm_collapses:
  assumes "wf_path q" "is_absolute q"
  shows "root (norm q) = root q"
    and "collapses\<^sup>*\<^sup>* (names q) (names (norm q))"
    and "\<forall>ms. collapses\<^sup>*\<^sup>* (names q) ms \<and> U ''..'' \<notin> set ms \<longrightarrow> ms = names (norm q)"
proof -
  have e: "norm q = Path (root q) (foldl (normpath_step True) [] (names q))"
    using assms by (rule norm_absolute(1))
  have g: "good_names (names q)" using assms(1) by (simp add: wf_path_def good_names_def)
  show "root (norm q) = root q" by (simp add: e)
  have "collapses\<^sup>*\<^sup>* ([] @ names q) (foldl (normpath_step True) [] (names q))"
    using g by (intro foldl_normpath_step_collapses) (simp add: normal_names_def)
  then show c: "collapses\<^sup>*\<^sup>* (names q) (names (norm q))" by (simp add: e)
  have "lexically_normal (norm q)" using assms by (rule norm_absolute(2))
  then have "U ''..'' \<notin> set (names (norm q))" by (auto simp: lexically_normal_def)
  with c have "names (norm q) = climb [] (names q)" by (rule collapses_normal_form)
  then show "\<forall>ms. collapses\<^sup>*\<^sup>* (names q) ms \<and> U ''..'' \<notin> set ms \<longrightarrow> ms = names (norm q)"
    using collapses_normal_form by auto
qed

lemma filter_split_dropWhile:
  "filter (\<lambda>x. x \<noteq> [] \<and> P x) (split_on c (dropWhile (\<lambda>y. y = c) xs))
     = filter (\<lambda>x. x \<noteq> [] \<and> P x) (split_on c xs)"
  by (induction xs) auto

lemma names_of_text:
  "names (as_path (AStr s)) = filter (\<lambda>x. x \<noteq> [] \<and> x \<noteq> U ''.'') (split_on 0x2F (U s))"
proof (cases "U s = []")
  case True
  then show ?thesis by (simp add: as_path_def pathlib_Path_def from_parts_single)
next
  case False
  then have "names (as_path (AStr s)) = rel_names (snd (splitroot (U s)))"
    by (simp add: as_path_def pathlib_Path_def from_parts_single)
  also have "\<dots> = filter (\<lambda>x. x \<noteq> [] \<and> x \<noteq> U ''.'') (split_on 0x2F (U s))"
    by (auto simp: rel_names_def splitroot_def Let_def filter_split_dropWhile)
  finally show ?thesis .
qed

lemma absolute_text: "is_absolute (as_path (AStr s)) = (take 1 s = ''/'')"
proof (cases s)
  case Nil
  then show ?thesis
    by (simp add: as_path_def pathlib_Path_def from_parts_single is_absolute_def U_def)
next
  case (Cons c cs)
  then have "U s \<noteq> []" by (simp add: U_def)
  then have "root (as_path (AStr s)) = fst (splitroot (U s))"
    by (simp add: as_path_def pathlib_Path_def from_parts_single)
  moreover have "(of_char c = (47::nat)) = (c = CHR ''/'')"
    using of_char_eq_iff [of c "CHR ''/''", where ?'a = nat] by simp
  then have "(take 1 (U s) = U ''/'') = (c = CHR ''/'')"
    using Cons by (auto simp: U_def)
  ultimately show ?thesis
    using Cons by (auto simp: is_absolute_def splitroot_def Let_def U_lits)
qed

lemma parse_parts_names: "good_names ns \<Longrightarrow> parse_parts ns = ([], ns)"
proof (induction ns)
  case Nil
  then show ?case by simp
next
  case (Cons n ns)
  then have n: "n \<noteq> []" "n \<noteq> U ''.''" "0x2F \<notin> set n" and g: "good_names ns"
    by (simp_all add: good_names_def)
  have "take 1 n \<noteq> U ''/''" using n by (cases n) (auto simp: U_lits)
  then have s: "splitroot n = ([], n)" by (simp add: splitroot_def)
  have r: "rel_names n = [n]" using n by (simp add: rel_names_def split_on_absent)
  show ?case using Cons.IH [OF g] n(1) by (simp add: s r)
qed

lemma truediv_relative:
  assumes "wf_path p" "\<not> is_absolute p"
  shows "truediv b p = Path (root b) (names b @ names p)"
proof -
  have "good_names (names p)" using assms(1) by (simp add: wf_path_def good_names_def)
  then have "parse_parts (parts_of p) = ([], names p)"
    using assms(2) by (simp add: parts_of_def is_absolute_def parse_parts_names)
  then show ?thesis by (simp add: truediv_def)
qed

lemma collapses_example_1:
  "collapses\<^sup>*\<^sup>* [U ''..'', U ''srv'', U ''x'', U ''..'', U ''y''] [U ''srv'', U ''y'']"
proof -
  have "collapses (U ''..'' # [U ''srv'', U ''x'', U ''..'', U ''y'']) [U ''srv'', U ''x'', U ''..'', U ''y'']"
    by (rule collapses.root_parent)
  moreover have "collapses ([U ''srv''] @ U ''x'' # U ''..'' # [U ''y'']) ([U ''srv''] @ [U ''y''])"
    by (rule collapses.parent) (simp add: U_def)
  ultimately show ?thesis by simp
qed

lemma collapses_example_2:
  "collapses\<^sup>*\<^sup>* ([U ''a'', U ''b''] @ [U ''..'', U ''..'', U ''..'', U ''x'', U ''y''])
     [U ''x'', U ''y'']"
proof -
  have "collapses ([U ''a''] @ U ''b'' # U ''..'' # [U ''..'', U ''..'', U ''x'', U ''y''])
      ([U ''a''] @ [U ''..'', U ''..'', U ''x'', U ''y''])"
    by (rule collapses.parent) (simp add: U_def)
  moreover have "collapses ([] @ U ''a'' # U ''..'' # [U ''..'', U ''x'', U ''y''])
      ([] @ [U ''..'', U ''x'', U ''y''])"
    by (rule collapses.parent) (simp add: U_def)
  moreover have "collapses (U ''..'' # [U ''x'', U ''y'']) [U ''x'', U ''y'']"
    by (rule collapses.root_parent)
  ultimately show ?thesis by simp
qed

text \<open>
  Claim C6: for an absolute \<open>p\<close>, \<^verbatim>\<open>normalise_path\<close> returns \<^verbatim>\<open>norm(p)\<close> whatever the base and
  the host's state are; neither is read.  For a path as \<^verbatim>\<open>pathlib\<close> builds it, which every
  path made from text is, that result is the lexical normal form of \<open>p\<close>: it has the root of
  \<open>p\<close>; its names are reached from the names of \<open>p\<close> by removing, any number of times, a
  name together with the \<^verbatim>\<open>..\<close> that follows it, or a \<^verbatim>\<open>..\<close> that stands first under the
  root; no \<^verbatim>\<open>..\<close>, \<^verbatim>\<open>.\<close> or empty name is left; and it is the only list of names without
  \<^verbatim>\<open>..\<close> that can be reached so.  The names of a path made from the text \<open>s\<close> are the pieces
  of \<open>s\<close> between the separators, without the empty ones and the \<^verbatim>\<open>.\<close> ones, and the path is
  absolute exactly when \<open>s\<close> begins with a separator.  In particular \<^verbatim>\<open>'/a/b/../c'\<close> gives
  \<^verbatim>\<open>/a/c\<close> for every base.
\<close>

theorem normalise_path_absolute:
  "(is_absolute (as_path p) \<longrightarrow> normalise_path rt p base = Inr (norm (as_path p)))
   \<and> (is_absolute (as_path p) \<longrightarrow> wf_path (as_path p) \<longrightarrow>
        root (norm (as_path p)) = root (as_path p)
        \<and> collapses\<^sup>*\<^sup>* (names (as_path p)) (names (norm (as_path p)))
        \<and> lexically_normal (norm (as_path p))
        \<and> (\<forall>ms. collapses\<^sup>*\<^sup>* (names (as_path p)) ms \<and> U ''..'' \<notin> set ms
               \<longrightarrow> ms = names (norm (as_path p))))
   \<and> wf_path (as_path (AStr s))
   \<and> is_absolute (as_path (AStr s)) = (take 1 s = ''/'')
   \<and> names (as_path (AStr s)) = filter (\<lambda>x. x \<noteq> [] \<and> x \<noteq> U ''.'') (split_on 0x2F (U s))
   \<and> normalise_path rt (AStr ''/a/b/../c'') base = Inr (Path (U ''/'') [U ''a'', U ''c''])"
proof (intro conjI impI)
  show "normalise_path rt p base = Inr (norm (as_path p))" if "is_absolute (as_path p)"
    using that by (simp add: normalise_path_def Let_def)
  show "root (norm (as_path p)) = root (as_path p)"
    if "is_absolute (as_path p)" "wf_path (as_path p)"
    using that(2,1) by (rule norm_collapses(1))
  show "collapses\<^sup>*\<^sup>* (names (as_path p)) (names (norm (as_path p)))"
    if "is_absolute (as_path p)" "wf_path (as_path p)"
    using that(2,1) by (rule norm_collapses(2))
  show "lexically_normal (norm (as_path p))" if "is_absolute (as_path p)" "wf_path (as_path p)"
    using that(2,1) by (rule norm_absolute(2))
  show "\<forall>ms. collapses\<^sup>*\<^sup>* (names (as_path p)) ms \<and> U ''..'' \<notin> set ms
          \<longrightarrow> ms = names (norm (as_path p))"
    if "is_absolute (as_path p)" "wf_path (as_path p)"
    using that(2,1) by (rule norm_collapses(3))
  show "wf_path (as_path (AStr s))" by (rule wf_as_path_text)
  show "is_absolute (as_path (AStr s)) = (take 1 s = ''/'')" by (rule absolute_text)
  show "names (as_path (AStr s)) = filter (\<lambda>x. x \<noteq> [] \<and> x \<noteq> U ''.'') (split_on 0x2F (U s))"
    by (rule names_of_text)
  have a: "as_path (AStr ''/a/b/../c'') = Path (U ''/'') [U ''a'', U ''b'', U ''..'', U ''c'']"
    by (simp add: as_path_def path_defs)
  have w: "wf_path (as_path (AStr ''/a/b/../c''))" by (rule wf_as_path_text)
  have i: "is_absolute (as_path (AStr ''/a/b/../c''))" by (simp add: a is_absolute_def U_def)
  have "norm (as_path (AStr ''/a/b/../c'')) = Path (U ''/'') [U ''a'', U ''c'']"
    unfolding norm_absolute(1) [OF w i] by (simp add: a normpath_step_def U_def)
  then show "normalise_path rt (AStr ''/a/b/../c'') base = Inr (Path (U ''/'') [U ''a'', U ''c''])"
    using i by (simp add: normalise_path_def Let_def)
qed

text \<open>
  Claim C6 at \<^verbatim>\<open>'//../srv/.//x/../y/'\<close> with the relative base \<^verbatim>\<open>'rel'\<close>, which would be
  refused if it were read: the result \<^verbatim>\<open>//srv/y\<close> is obtained from the theorem alone, as the
  one list without \<^verbatim>\<open>..\<close> that the names of the text collapse to.
\<close>

theorem normalise_path_absolute_witness:
  "normalise_path loop_runtime (AStr ''//../srv/.//x/../y/'') (Some (AStr ''rel''))
     = Inr (Path (U ''//'') [U ''srv'', U ''y''])
   \<and> lexically_normal (Path (U ''//'') [U ''srv'', U ''y''])
   \<and> filter (\<lambda>x. x \<noteq> [] \<and> x \<noteq> U ''.'') (split_on 0x2F (U ''//../srv/.//x/../y/''))
       = [U ''..'', U ''srv'', U ''x'', U ''..'', U ''y'']"
proof -
  let ?s = "''//../srv/.//x/../y/''"
  let ?p = "AStr ?s"
  note t = normalise_path_absolute [of ?p loop_runtime "Some (AStr ''rel'')" ?s]
  have k: "take 1 ?s = ''/''" by simp
  from t k have i: "is_absolute (as_path ?p)" by blast
  from t have w: "wf_path (as_path ?p)" by blast
  from t have "names (as_path ?p) = filter (\<lambda>x. x \<noteq> [] \<and> x \<noteq> U ''.'') (split_on 0x2F (U ?s))"
    by blast
  moreover have f: "filter (\<lambda>x. x \<noteq> [] \<and> x \<noteq> U ''.'') (split_on 0x2F (U ?s))
      = [U ''..'', U ''srv'', U ''x'', U ''..'', U ''y'']"
    by (simp add: U_def)
  ultimately have n: "names (as_path ?p) = [U ''..'', U ''srv'', U ''x'', U ''..'', U ''y'']"
    by simp
  have r: "root (as_path ?p) = U ''//''" by (simp add: as_path_def path_defs)
  from t i have 1: "normalise_path loop_runtime ?p (Some (AStr ''rel'')) = Inr (norm (as_path ?p))"
    by blast
  from t i w have 2: "root (norm (as_path ?p)) = root (as_path ?p)"
    and 3: "lexically_normal (norm (as_path ?p))"
    and 4: "\<forall>ms. collapses\<^sup>*\<^sup>* (names (as_path ?p)) ms \<and> U ''..'' \<notin> set ms
          \<longrightarrow> ms = names (norm (as_path ?p))" by blast+
  have "U ''..'' \<notin> set [U ''srv'', U ''y'']" by (simp add: U_def)
  with 4 collapses_example_1 have "names (norm (as_path ?p)) = [U ''srv'', U ''y'']"
    unfolding n by (metis (no_types, lifting))
  with 2 r have 5: "norm (as_path ?p) = Path (U ''//'') [U ''srv'', U ''y'']"
    by (cases "norm (as_path ?p)") simp
  from 1 3 f show ?thesis by (simp add: 5)
qed

text \<open>
  Claim C7: for a relative \<open>p\<close> and a base that is given, \<^verbatim>\<open>normalise_path\<close> returns
  \<^verbatim>\<open>norm(base / p)\<close> when the base is absolute and raises
  \<^verbatim>\<open>ValueError('Expect base to be an absolute path')\<close> when it is not.  For paths as
  \<^verbatim>\<open>pathlib\<close> builds them the result is the lexical normal form of the base joined with
  \<open>p\<close>: it has the root of the base; its names are reached from the names of the base
  followed by those of \<open>p\<close> by removing, any number of times, a name together with the
  \<^verbatim>\<open>..\<close> that follows it, or a \<^verbatim>\<open>..\<close> that stands first under the root; no \<^verbatim>\<open>..\<close>, \<^verbatim>\<open>.\<close> or
  empty name is left; and it is the only list of names without \<^verbatim>\<open>..\<close> that can be reached
  so.  In particular \<^verbatim>\<open>'c'\<close> on the base \<^verbatim>\<open>'/a/b'\<close> gives \<^verbatim>\<open>/a/b/c\<close>, and on the base \<^verbatim>\<open>'rel'\<close>
  it raises.
\<close>

theorem normalise_path_relative:
  "(\<not> is_absolute (as_path p) \<longrightarrow>
      normalise_path rt p (Some b) =
        (if is_absolute (as_path b) then Inr (norm (truediv (as_path b) (as_path p)))
         else Inl ValueError_base_not_absolute))
   \<and> (\<not> is_absolute (as_path p) \<longrightarrow> is_absolute (as_path b) \<longrightarrow> wf_path (as_path p)
        \<longrightarrow> wf_path (as_path b) \<longrightarrow>
      root (norm (truediv (as_path b) (as_path p))) = root (as_path b)
      \<and> collapses\<^sup>*\<^sup>* (names (as_path b) @ names (as_path p))
            (names (norm (truediv (as_path b) (as_path p))))
      \<and> lexically_normal (norm (truediv (as_path b) (as_path p)))
      \<and> (\<forall>ms. collapses\<^sup>*\<^sup>* (names (as_path b) @ names (as_path p)) ms \<and> U ''..'' \<notin> set ms
             \<longrightarrow> ms = names (norm (truediv (as_path b) (as_path p)))))
   \<and> normalise_path rt (AStr ''c'') (Some (AStr ''/a/b'')) = Inr (Path (U ''/'') [U ''a'', U ''b'', U ''c''])
   \<and> normalise_path rt (AStr ''c'') (Some (AStr ''rel'')) = Inl ValueError_base_not_absolute"
proof (intro conjI impI)
  show "normalise_path rt p (Some b) =
        (if is_absolute (as_path b) then Inr (norm (truediv (as_path b) (as_path p)))
         else Inl ValueError_base_not_absolute)" if "\<not> is_absolute (as_path p)"
    using that by (simp add: normalise_path_def Let_def)
  have j: "truediv (as_path b) (as_path p) = Path (root (as_path b)) (names (as_path b) @ names (as_path p))"
      "wf_path (truediv (as_path b) (as_path p))" "is_absolute (truediv (as_path b) (as_path p))"
    if h: "\<not> is_absolute (as_path p)" "is_absolute (as_path b)" "wf_path (as_path p)"
      "wf_path (as_path b)"
  proof -
    show e: "truediv (as_path b) (as_path p)
        = Path (root (as_path b)) (names (as_path b) @ names (as_path p))"
      using h(3,1) by (rule truediv_relative)
    show "wf_path (truediv (as_path b) (as_path p))"
      using h(3,4) by (auto simp: e wf_path_def)
    show "is_absolute (truediv (as_path b) (as_path p))"
      using h(2) by (simp add: e is_absolute_def)
  qed
  show "root (norm (truediv (as_path b) (as_path p))) = root (as_path b)"
    if h: "\<not> is_absolute (as_path p)" "is_absolute (as_path b)" "wf_path (as_path p)"
      "wf_path (as_path b)"
    using norm_collapses(1) [OF j(2,3) [OF h]] by (simp add: j(1) [OF h])
  show "collapses\<^sup>*\<^sup>* (names (as_path b) @ names (as_path p))
            (names (norm (truediv (as_path b) (as_path p))))"
    if h: "\<not> is_absolute (as_path p)" "is_absolute (as_path b)" "wf_path (as_path p)"
      "wf_path (as_path b)"
    using norm_collapses(2) [OF j(2,3) [OF h]] by (simp add: j(1) [OF h])
  show "lexically_normal (norm (truediv (as_path b) (as_path p)))"
    if h: "\<not> is_absolute (as_path p)" "is_absolute (as_path b)" "wf_path (as_path p)"
      "wf_path (as_path b)"
    using j(2,3) [OF h] by (rule norm_absolute(2))
  show "\<forall>ms. collapses\<^sup>*\<^sup>* (names (as_path b) @ names (as_path p)) ms \<and> U ''..'' \<notin> set ms
             \<longrightarrow> ms = names (norm (truediv (as_path b) (as_path p)))"
    if h: "\<not> is_absolute (as_path p)" "is_absolute (as_path b)" "wf_path (as_path p)"
      "wf_path (as_path b)"
    using norm_collapses(3) [OF j(2,3) [OF h]] by (simp add: j(1) [OF h])
  have c: "as_path (AStr ''c'') = Path [] [U ''c'']" by (simp add: as_path_def path_defs)
  have ab: "as_path (AStr ''/a/b'') = Path (U ''/'') [U ''a'', U ''b'']"
    by (simp add: as_path_def path_defs)
  have rel: "as_path (AStr ''rel'') = Path [] [U ''rel'']" by (simp add: as_path_def path_defs)
  have wc: "wf_path (Path [] [U ''c''])" by (simp add: wf_path_def U_def)
  have t: "truediv (Path (U ''/'') [U ''a'', U ''b'']) (Path [] [U ''c''])
      = Path (U ''/'') [U ''a'', U ''b'', U ''c'']"
    using truediv_relative [OF wc, of "Path (U ''/'') [U ''a'', U ''b'']"]
    by (simp add: is_absolute_def)
  have wt: "wf_path (Path (U ''/'') [U ''a'', U ''b'', U ''c''])" by (simp add: wf_path_def U_def)
  have n: "norm (Path (U ''/'') [U ''a'', U ''b'', U ''c'']) = Path (U ''/'') [U ''a'', U ''b'', U ''c'']"
    using norm_absolute(1) [OF wt] by (simp add: is_absolute_def normpath_step_def U_def)
  show "normalise_path rt (AStr ''c'') (Some (AStr ''/a/b'')) = Inr (Path (U ''/'') [U ''a'', U ''b'', U ''c''])"
  proof -
    have i: "is_absolute (Path (U ''/'') [U ''a'', U ''b''])" by (simp add: is_absolute_def U_def)
    have ni: "\<not> is_absolute (Path [] [U ''c''])" by (simp add: is_absolute_def)
    show ?thesis by (simp add: normalise_path_def Let_def c ab i ni t n)
  qed
  show "normalise_path rt (AStr ''c'') (Some (AStr ''rel'')) = Inl ValueError_base_not_absolute"
    by (simp add: normalise_path_def Let_def c rel is_absolute_def)
qed

text \<open>
  Claim C7 at \<^verbatim>\<open>'../../../x/./y'\<close> on the bases \<^verbatim>\<open>'/a/b'\<close> and \<^verbatim>\<open>'a/b'\<close>: on the first the
  result \<^verbatim>\<open>/x/y\<close> is obtained from the theorem alone, on the second the call raises.
\<close>

theorem normalise_path_relative_witness:
  "normalise_path linked_runtime (AStr ''../../../x/./y'') (Some (AStr ''/a/b''))
     = Inr (Path (U ''/'') [U ''x'', U ''y''])
   \<and> lexically_normal (Path (U ''/'') [U ''x'', U ''y''])
   \<and> normalise_path linked_runtime (AStr ''../../../x/./y'') (Some (AStr ''a/b''))
     = Inl ValueError_base_not_absolute"
proof -
  let ?p = "AStr ''../../../x/./y''" and ?b = "AStr ''/a/b''" and ?r = "AStr ''a/b''"
  have p: "as_path ?p = Path [] [U ''..'', U ''..'', U ''..'', U ''x'', U ''y'']"
    by (simp add: as_path_def path_defs)
  have b: "as_path ?b = Path (U ''/'') [U ''a'', U ''b'']" by (simp add: as_path_def path_defs)
  have r: "as_path ?r = Path [] [U ''a'', U ''b'']" by (simp add: as_path_def path_defs)
  have np: "\<not> is_absolute (as_path ?p)" by (simp add: p is_absolute_def)
  have ib: "is_absolute (as_path ?b)" by (simp add: b is_absolute_def U_def)
  have nr: "\<not> is_absolute (as_path ?r)" by (simp add: r is_absolute_def)
  have wp: "wf_path (as_path ?p)" by (simp add: p wf_path_def U_def)
  have wb: "wf_path (as_path ?b)" by (simp add: b wf_path_def U_def)
  note t1 = normalise_path_relative [of ?p linked_runtime ?b]
  note t2 = normalise_path_relative [of ?p linked_runtime ?r]
  from t1 np ib have 1: "normalise_path linked_runtime ?p (Some ?b)
      = Inr (norm (truediv (as_path ?b) (as_path ?p)))" by simp
  from t1 np ib wp wb have 2: "root (norm (truediv (as_path ?b) (as_path ?p))) = root (as_path ?b)"
    and 3: "lexically_normal (norm (truediv (as_path ?b) (as_path ?p)))"
    and 4: "\<forall>ms. collapses\<^sup>*\<^sup>* (names (as_path ?b) @ names (as_path ?p)) ms \<and> U ''..'' \<notin> set ms
          \<longrightarrow> ms = names (norm (truediv (as_path ?b) (as_path ?p)))" by blast+
  have "U ''..'' \<notin> set [U ''x'', U ''y'']" by (simp add: U_def)
  moreover have "collapses\<^sup>*\<^sup>* (names (as_path ?b) @ names (as_path ?p)) [U ''x'', U ''y'']"
    unfolding p b path.sel by (rule collapses_example_2)
  ultimately have "names (norm (truediv (as_path ?b) (as_path ?p))) = [U ''x'', U ''y'']"
    using 4 by (metis (no_types, lifting))
  with 2 have 5: "norm (truediv (as_path ?b) (as_path ?p)) = Path (U ''/'') [U ''x'', U ''y'']"
    by (cases "norm (truediv (as_path ?b) (as_path ?p))") (simp add: b)
  from t2 np nr have 6: "normalise_path linked_runtime ?p (Some ?r)
      = Inl ValueError_base_not_absolute" by simp
  from 1 3 6 show ?thesis by (simp add: 5)
qed

section \<open>\<^verbatim>\<open>as_url\<close>\<close>

lemmas uri_defs = as_uri_def utf8_encode1_def quote_from_bytes_def quote_byte_def safe_byte_def
  hex_upper_def char_of_eq_iff

lemma is_url_file_uri: "is_url (Str (''file://'' @ x)) = Inr True"
proof -
  have "matches_scheme_pattern re_s (\<lambda>c. re_w c \<or> re_d c \<or> c = CHR ''+'') (''file://'' @ x)"
    unfolding matches_scheme_pattern_def
    by (rule exI [of _ "''''"], rule exI [of _ "''file''"], rule exI [of _ x])
       (simp add: class_defs)
  then show ?thesis by (simp only: is_url_Str re_match_URL_RE)
qed

lemma is_url_total: "\<exists>b. is_url v = Inr b"
  by (cases v) (auto simp: is_url_def Pattern_match_def)

text \<open>
  Claim C10: whenever \<^verbatim>\<open>as_url\<close> returns on text, what it returns is a locator for \<^verbatim>\<open>is_url\<close>,
  and \<^verbatim>\<open>as_url\<close> returns it unchanged when applied again.
\<close>

theorem as_url_idempotent:
  assumes "as_url rt (AStr s) = Inr r"
  shows "is_url (to_obj r) = Inr True \<and> as_url rt r = Inr r"
proof -
  obtain b where b: "is_url (Str s) = Inr b" using is_url_total by blast
  have "is_url (to_obj r) = Inr True"
  proof (cases b)
    case True
    with assms b have "r = AStr s" by (simp add: as_url_def)
    with True b show ?thesis by simp
  next
    case False
    with assms b obtain x where "r = AStr (''file://'' @ x)"
      by (auto simp: as_url_def as_uri_def split: sum.splits if_splits)
    then show ?thesis using is_url_file_uri [of x] by simp
  qed
  then show ?thesis by (simp add: as_url_def)
qed

text \<open>
  Claim C10 at the relative path \<^verbatim>\<open>'a b/x'\<close> in the directory \<^verbatim>\<open>/data/real\<close>.
\<close>

theorem as_url_idempotent_witness:
  "as_url linked_runtime (AStr ''a b/x'') = Inr (AStr ''file:///data/real/a%20b/x'')
   \<and> is_url (Str ''file:///data/real/a%20b/x'') = Inr True
   \<and> as_url linked_runtime (AStr ''file:///data/real/a%20b/x'')
       = Inr (AStr ''file:///data/real/a%20b/x'')"
proof -
  have n: "is_url (Str ''a b/x'') = Inr False"
    by (simp add: is_url_Str URL_RE_def Plus_def class_defs)
  have a: "as_url linked_runtime (AStr ''a b/x'') = Inr (AStr ''file:///data/real/a%20b/x'')"
    by (simp add: as_url_def n linked_runtime_def path_defs uri_defs)
  from as_url_idempotent [OF a] a show ?thesis by simp
qed
















end
